theory Spec2Isabelle
  imports Main "HOL-Library.AList" "HOL-Library.Multiset"
begin

section \<open>JavaScript strings and arrays\<close>

text \<open>
  The analyzer is TypeScript. Its strings are modelled as \<^typ>\<open>string\<close> restricted to
  ASCII: the white space of \<^verbatim>\<open>trim()\<close> and of the regular expression class
  \<^verbatim>\<open>\s\<close> is TAB, LF, VT, FF, CR and SPACE, and \<^verbatim>\<open>toLowerCase()\<close> folds
  \<^verbatim>\<open>A-Z\<close> only. Every other character is left alone.
\<close>

definition isWhiteSpace :: "char \<Rightarrow> bool" where
  "isWhiteSpace c = (c \<in> {CHR 0x09, CHR 0x0A, CHR 0x0B, CHR 0x0C, CHR 0x0D, CHR 0x20})"

definition isDigit :: "char \<Rightarrow> bool" where
  "isDigit c = (c \<in> set ''0123456789'')"

definition lowerChar :: "char \<Rightarrow> char" where
  "lowerChar c =
     (case map_of (zip ''ABCDEFGHIJKLMNOPQRSTUVWXYZ'' ''abcdefghijklmnopqrstuvwxyz'') c of
        None \<Rightarrow> c
      | Some l \<Rightarrow> l)"

definition toLowerCase :: "string \<Rightarrow> string" where
  "toLowerCase s = map lowerChar s"

definition trim :: "string \<Rightarrow> string" where
  "trim s = rev (dropWhile isWhiteSpace (rev (dropWhile isWhiteSpace s)))"

definition startsWith :: "string \<Rightarrow> string \<Rightarrow> bool" where
  "startsWith s p = (take (length p) s = p)"

text \<open>\<^verbatim>\<open>s.includes(p)\<close>: \<open>p\<close> occurs in \<open>s\<close> as a contiguous substring.\<close>

fun str_includes :: "string \<Rightarrow> string \<Rightarrow> bool" where
  "str_includes [] p = (p = [])"
| "str_includes (c # cs) p = (startsWith (c # cs) p \<or> str_includes cs p)"

text \<open>\<^verbatim>\<open>s.split(sep)\<close> for a separator of one character; the result is never empty.\<close>

fun split :: "string \<Rightarrow> char \<Rightarrow> string list" where
  "split [] sep = [[]]"
| "split (c # cs) sep =
     (if c = sep then [] # split cs sep
      else (case split cs sep of [] \<Rightarrow> [[c]] | p # ps \<Rightarrow> (c # p) # ps))"

text \<open>
  \<^verbatim>\<open>s.replace(pat, rep)\<close> with a string pattern replaces the first occurrence only
  (the replacement strings of the analyzer hold no \<^verbatim>\<open>$\<close>).
\<close>

fun replace :: "string \<Rightarrow> string \<Rightarrow> string \<Rightarrow> string" where
  "replace [] pat rep = (if pat = [] then rep else [])"
| "replace (c # cs) pat rep =
     (if startsWith (c # cs) pat then rep @ drop (length pat) (c # cs)
      else c # replace cs pat rep)"

text \<open>\<^verbatim>\<open>xs.slice(0, -1)\<close>: all but the last element.\<close>

definition slice_0_m1 :: "'a list \<Rightarrow> 'a list" where
  "slice_0_m1 xs = butlast xs"

section \<open>Trace Parser: deduplication\<close>

text \<open>
  The frame of \<^verbatim>\<open>stack-trace-parser\<close> and its \<^verbatim>\<open>deduplicateEntries\<close>:
  \<^verbatim>\<open>
  const seen = new Set<string>()
  return entries.filter((entry) => {
    const key = `${entry.namespace}.${entry.methodName}`
    if (seen.has(key)) { return false }
    seen.add(key)
    return true
  })
  \<close>
  The set \<open>seen\<close> is threaded through the filter as an argument.
\<close>

record StackTraceEntry =
  namespace :: string
  methodName :: string
  originalLine :: string
  lineIndex :: nat

definition entry_key :: "StackTraceEntry \<Rightarrow> string" where
  "entry_key entry = namespace entry @ ''.'' @ methodName entry"

fun dedup_filter :: "string set \<Rightarrow> StackTraceEntry list \<Rightarrow> StackTraceEntry list" where
  "dedup_filter seen [] = []"
| "dedup_filter seen (entry # entries) =
     (let key = entry_key entry in
      if key \<in> seen then dedup_filter seen entries
      else entry # dedup_filter (insert key seen) entries)"

definition deduplicateEntries :: "StackTraceEntry list \<Rightarrow> StackTraceEntry list" where
  "deduplicateEntries entries = dedup_filter {} entries"

text \<open>
  The positions of the input whose key did not occur at an earlier position: the
  first occurrence of every key, in input order.
\<close>

definition first_occurrences :: "string set \<Rightarrow> StackTraceEntry list \<Rightarrow> nat list" where
  "first_occurrences seen entries =
     filter (\<lambda>i. entry_key (entries ! i) \<notin> seen \<union> entry_key ` set (take i entries))
       [0 ..< length entries]"

section \<open>History Analyzer: pull-request references\<close>

text \<open>
  \<^verbatim>\<open>extractPRNumber\<close> of \<^verbatim>\<open>git-advanced\<close> runs five regular expressions
  over the message, in order, and returns at the first that matches:
  \<^verbatim>\<open>
  let match = message.match(/Merge pull request #(\d+)/)
  if (match) return { prNumber: match[1], prSource: "github" }
  match = message.match(/\(#(\d+)\)/)
  if (match) return { prNumber: match[1], prSource: "github" }
  match = message.match(/\(PR\s+(\d+)\)/)
  if (match) return { prNumber: match[1], prSource: "azure" }
  match = message.match(/#(\d+)/)
  if (match) return { prNumber: match[1], prSource: "github" }
  match = message.match(/PR\s+(\d+)/)
  if (match) return { prNumber: match[1], prSource: "azure" }
  return {}
  \<close>
  \<open>regex_search\<close> is the unanchored search of \<^verbatim>\<open>String.prototype.match\<close>: it tries
  the pattern at every position from the left and returns the capture group of the
  first position where it matches. The patterns themselves are sequences of a literal,
  \<^verbatim>\<open>\s+\<close> and \<^verbatim>\<open>(\d+)\<close>; both repetitions are greedy and what follows them
  can never start with a character of the repeated class, so each pattern matches at a
  position in at most one way, with the maximal runs.
\<close>

datatype pr_source = github | azure

definition lit :: "string \<Rightarrow> string \<Rightarrow> string option" where
  "lit p s = (if startsWith s p then Some (drop (length p) s) else None)"

definition digits1 :: "string \<Rightarrow> (string \<times> string) option" where
  "digits1 s = (if takeWhile isDigit s = [] then None
                else Some (takeWhile isDigit s, dropWhile isDigit s))"

definition spaces1 :: "string \<Rightarrow> string option" where
  "spaces1 s = (if takeWhile isWhiteSpace s = [] then None else Some (dropWhile isWhiteSpace s))"

fun regex_search :: "(string \<Rightarrow> 'a option) \<Rightarrow> string \<Rightarrow> 'a option" where
  "regex_search m [] = m []"
| "regex_search m (c # cs) = (case m (c # cs) of Some r \<Rightarrow> Some r | None \<Rightarrow> regex_search m cs)"

definition merge_pr_at :: "string \<Rightarrow> string option" where
  "merge_pr_at s =
     (case lit ''Merge pull request #'' s of None \<Rightarrow> None
      | Some r \<Rightarrow> map_option fst (digits1 r))"

definition paren_hash_at :: "string \<Rightarrow> string option" where
  "paren_hash_at s =
     (case lit ''(#'' s of None \<Rightarrow> None
      | Some r \<Rightarrow> (case digits1 r of None \<Rightarrow> None
          | Some (ds, r') \<Rightarrow> (case lit '')'' r' of None \<Rightarrow> None | Some _ \<Rightarrow> Some ds)))"

definition paren_pr_at :: "string \<Rightarrow> string option" where
  "paren_pr_at s =
     (case lit ''(PR'' s of None \<Rightarrow> None
      | Some r \<Rightarrow> (case spaces1 r of None \<Rightarrow> None
          | Some r1 \<Rightarrow> (case digits1 r1 of None \<Rightarrow> None
              | Some (ds, r') \<Rightarrow> (case lit '')'' r' of None \<Rightarrow> None | Some _ \<Rightarrow> Some ds))))"

definition hash_at :: "string \<Rightarrow> string option" where
  "hash_at s =
     (case lit ''#'' s of None \<Rightarrow> None
      | Some r \<Rightarrow> map_option fst (digits1 r))"

definition pr_at :: "string \<Rightarrow> string option" where
  "pr_at s =
     (case lit ''PR'' s of None \<Rightarrow> None
      | Some r \<Rightarrow> (case spaces1 r of None \<Rightarrow> None
          | Some r1 \<Rightarrow> map_option fst (digits1 r1)))"

text \<open>The returned object \<^verbatim>\<open>{ prNumber?, prSource? }\<close> is the pair of its two fields.\<close>

definition extractPRNumber :: "string \<Rightarrow> string option \<times> pr_source option" where
  "extractPRNumber message =
     (case regex_search merge_pr_at message of Some n \<Rightarrow> (Some n, Some github)
      | None \<Rightarrow>
     (case regex_search paren_hash_at message of Some n \<Rightarrow> (Some n, Some github)
      | None \<Rightarrow>
     (case regex_search paren_pr_at message of Some n \<Rightarrow> (Some n, Some azure)
      | None \<Rightarrow>
     (case regex_search hash_at message of Some n \<Rightarrow> (Some n, Some github)
      | None \<Rightarrow>
     (case regex_search pr_at message of Some n \<Rightarrow> (Some n, Some azure)
      | None \<Rightarrow> (None, None))))))"

definition getPRUrl :: "string \<Rightarrow> pr_source option \<Rightarrow> string" where
  "getPRUrl num source =
     (if source = Some azure
      then ''https://devops.wisetechglobal.com/wtg/CargoWise/_git/Dev/pullrequest/'' @ num
      else ''https://github.com/WiseTechGlobal/CargoWise/pull/'' @ num)"

section \<open>Exceptions, dates and sorting of the runtime\<close>

text \<open>
  What a \<^verbatim>\<open>try\<close> block can throw: the rejection of \<^verbatim>\<open>execAsync\<close> (tool missing,
  non-zero exit, bad working directory), a failing \<^verbatim>\<open>readFileSync\<close>, and the
  \<^verbatim>\<open>RangeError\<close> of \<^verbatim>\<open>toISOString()\<close> on an invalid date. A computation that
  can throw returns \<open>exn + 'a\<close>, \<open>Inl\<close> being the exception.
\<close>

datatype exn = ExecError string | FsError string | RangeError

text \<open>
  A \<^verbatim>\<open>Date\<close> is its time value: milliseconds since the epoch, or \<open>None\<close> for the
  invalid date (\<^verbatim>\<open>NaN\<close>). The string that \<^verbatim>\<open>toISOString().split("T")[0]\<close>
  yields for a valid date is the UTC calendar date \<^verbatim>\<open>YYYY-MM-DD\<close> of the day
  \<open>t div msPerDay\<close>; the constructor \<^verbatim>\<open>new Date(string)\<close> reads such a date-only
  string back as midnight UTC of the same day. A calendar-date string is therefore
  represented by the number of its day, \<open>YMD d\<close> being day \<open>d\<close> after 1970-01-01,
  and \<open>NoDate\<close> stands for the empty string and any other text that \<^verbatim>\<open>Date\<close> cannot
  read.
\<close>

datatype datestr = NoDate | YMD int

definition msPerDay :: int where
  "msPerDay = 86400000"

definition TimeClip :: "int \<Rightarrow> int option" where
  "TimeClip t = (if \<bar>t\<bar> > 8640000000000000 then None else Some t)"

text \<open>\<^verbatim>\<open>new Date(number)\<close>, the number possibly \<^verbatim>\<open>NaN\<close>.\<close>

definition Date_of_number :: "int option \<Rightarrow> int option" where
  "Date_of_number v = (case v of None \<Rightarrow> None | Some t \<Rightarrow> TimeClip t)"

text \<open>\<^verbatim>\<open>new Date(string)\<close>.\<close>

definition Date_of_string :: "datestr \<Rightarrow> int option" where
  "Date_of_string s = (case s of NoDate \<Rightarrow> None | YMD d \<Rightarrow> TimeClip (d * msPerDay))"

text \<open>\<^verbatim>\<open>date.toISOString().split("T")[0]\<close>.\<close>

definition toISOString_date :: "int option \<Rightarrow> exn + datestr" where
  "toISOString_date t = (case t of None \<Rightarrow> Inl RangeError | Some v \<Rightarrow> Inr (YMD (v div msPerDay)))"

text \<open>
  The local time zone of the host is the operation \<^verbatim>\<open>LocalTZA(t, isUTC)\<close> of the
  language: the offset of local time from UTC in milliseconds, at the instant \<open>t\<close> of
  UTC when \<open>isUTC\<close> holds and at the local time \<open>t\<close> otherwise. The language leaves
  it to the host, so it is a parameter of everything that reads the local clock.
  \<^verbatim>\<open>LocalTime(t)\<close> and \<^verbatim>\<open>UTC(t)\<close> convert with it.
\<close>

type_synonym zone = "int \<Rightarrow> bool \<Rightarrow> int"

definition LocalTime :: "zone \<Rightarrow> int \<Rightarrow> int" where
  "LocalTime LocalTZA t = t + LocalTZA t True"

definition UTC :: "zone \<Rightarrow> int \<Rightarrow> int" where
  "UTC LocalTZA t = t - LocalTZA t False"

text \<open>
  \<^verbatim>\<open>date.setHours(0, 0, 0, 0)\<close>: the time value becomes
  \<^verbatim>\<open>TimeClip(UTC(MakeDate(Day(LocalTime(t)), MakeTime(0, 0, 0, 0))))\<close>, the start of
  the local day that holds the date; an invalid date stays invalid.
\<close>

definition setHours0 :: "zone \<Rightarrow> int option \<Rightarrow> int option" where
  "setHours0 LocalTZA t =
     (case t of None \<Rightarrow> None
      | Some v \<Rightarrow> TimeClip (UTC LocalTZA ((LocalTime LocalTZA v div msPerDay) * msPerDay)))"

text \<open>A zone that keeps one offset all year, such as UTC itself.\<close>

definition fixed_offset :: "int \<Rightarrow> zone" where
  "fixed_offset off t isUTC = off"

text \<open>
  A zone of the time zone database: the offset before the first transition, and the
  transitions in ascending order, each the instant of UTC at which the offset changes
  and the offset from then on. A local time that a transition repeats or skips is read
  with the offset before the transition, as the language prescribes.
\<close>

fun offset_at_utc :: "int \<Rightarrow> (int \<times> int) list \<Rightarrow> int \<Rightarrow> int" where
  "offset_at_utc off [] t = off"
| "offset_at_utc off ((at, off') # ts) t = (if t < at then off else offset_at_utc off' ts t)"

fun offset_at_local :: "int \<Rightarrow> (int \<times> int) list \<Rightarrow> int \<Rightarrow> int" where
  "offset_at_local off [] t = off"
| "offset_at_local off ((at, off') # ts) t =
     (if t < at + max off off' then off else offset_at_local off' ts t)"

definition tzdata :: "int \<Rightarrow> (int \<times> int) list \<Rightarrow> zone" where
  "tzdata off ts t isUTC = (if isUTC then offset_at_utc off ts t else offset_at_local off ts t)"

text \<open>\<^verbatim>\<open>a >= b\<close> on two dates: false as soon as one of them is invalid.\<close>

definition date_ge :: "int option \<Rightarrow> int option \<Rightarrow> bool" where
  "date_ge a b = (case a of None \<Rightarrow> False | Some x \<Rightarrow> (case b of None \<Rightarrow> False | Some y \<Rightarrow> y \<le> x))"

text \<open>
  \<^verbatim>\<open>Number.parseInt(str)\<close> without a radix: leading white space, an optional sign, an
  optional \<^verbatim>\<open>0x\<close> prefix selecting radix 16, then the longest run of digits;
  \<open>None\<close> (\<^verbatim>\<open>NaN\<close>) when there is no digit.
\<close>

definition digit_value :: "char \<Rightarrow> int option" where
  "digit_value c =
     (if isDigit c then Some (of_char c - 48)
      else if c \<in> set ''abcdef'' then Some (of_char c - 87)
      else if c \<in> set ''ABCDEF'' then Some (of_char c - 55)
      else None)"

fun parseDigits :: "int \<Rightarrow> string \<Rightarrow> int option \<Rightarrow> int option" where
  "parseDigits R [] acc = acc"
| "parseDigits R (c # cs) acc =
     (case digit_value c of
        None \<Rightarrow> acc
      | Some v \<Rightarrow>
          if v < R then parseDigits R cs (Some ((case acc of None \<Rightarrow> 0 | Some n \<Rightarrow> n) * R + v))
          else acc)"

definition parseInt :: "string \<Rightarrow> int option" where
  "parseInt str =
     (let s = dropWhile isWhiteSpace str;
          sign = (if startsWith s ''-'' then - 1 else 1);
          s1 = (if startsWith s ''-'' \<or> startsWith s ''+'' then drop 1 s else s);
          R = (if startsWith s1 ''0x'' \<or> startsWith s1 ''0X'' then 16 else 10);
          s2 = (if R = 16 then drop 2 s1 else s1)
      in map_option (\<lambda>n. sign * n) (parseDigits R s2 None))"

text \<open>
  \<^verbatim>\<open>Array.prototype.sort(cmp)\<close> is a stable sort: an element moves behind another
  only where \<open>cmp\<close> puts it there (\<open>cmp y x > 0\<close> says that \<open>y\<close> goes after \<open>x\<close>).
  It is modelled by insertion from the left.
\<close>

fun insert_by :: "('a \<Rightarrow> 'a \<Rightarrow> int) \<Rightarrow> 'a \<Rightarrow> 'a list \<Rightarrow> 'a list" where
  "insert_by cmp x [] = [x]"
| "insert_by cmp x (y # ys) = (if cmp y x > 0 then x # y # ys else y # insert_by cmp x ys)"

definition sort_by :: "('a \<Rightarrow> 'a \<Rightarrow> int) \<Rightarrow> 'a list \<Rightarrow> 'a list" where
  "sort_by cmp xs = foldl (\<lambda>acc x. insert_by cmp x acc) [] xs"

text \<open>The decimal text of an integer, as a template literal prints a line number.\<close>

fun digitsOf :: "nat \<Rightarrow> string" where
  "digitsOf n = (if n < 10 then [] else digitsOf (n div 10)) @ [''0123456789'' ! (n mod 10)]"

declare digitsOf.simps [simp del]

definition numberToString :: "int \<Rightarrow> string" where
  "numberToString i = (if 0 \<le> i then digitsOf (nat i) else CHR ''-'' # digitsOf (nat (- i)))"

section \<open>History Analyzer: blame parsing\<close>

text \<open>
  \<^verbatim>\<open>analyzeBlameResults\<close> keeps a \<^verbatim>\<open>Map\<close> from hash to record, in insertion
  order, and a reference \<^verbatim>\<open>currentCommit\<close> to one of the records of the map (or
  \<^verbatim>\<open>null\<close>). The map is an association list and the reference is the key of the
  record it points to: every record is stored under its own hash and never leaves the
  map, so writing through the reference is updating the entry of that key.
\<close>

record GitBlameAnalysis =
  commitHash :: string
  author :: string
  commitDate :: datestr
  commitMessage :: string
  prNumber :: "string option"
  prUrl :: "string option"
  prSource :: "pr_source option"
  inDateRange :: bool
  withinOneYear :: bool

record parse_state =
  commitMap :: "(string \<times> GitBlameAnalysis) list"
  currentCommit :: "string option"

definition isHex :: "char \<Rightarrow> bool" where
  "isHex c = (c \<in> set ''abcdef0123456789'')"

text \<open>\<^verbatim>\<open>line.match(/^([a-f0-9]+)\s+/)\<close>: the capture group, when the line matches.\<close>

definition commitMatch :: "string \<Rightarrow> string option" where
  "commitMatch line =
     (if takeWhile isHex line = [] then None
      else (case dropWhile isHex line of
              [] \<Rightarrow> None
            | c # _ \<Rightarrow> if isWhiteSpace c then Some (takeWhile isHex line) else None))"

definition newCommit :: "string \<Rightarrow> GitBlameAnalysis" where
  "newCommit hash =
     \<lparr> commitHash = hash, author = ''Unknown'', commitDate = NoDate, commitMessage = '''',
       prNumber = None, prUrl = None, prSource = None,
       inDateRange = False, withinOneYear = False \<rparr>"

definition has :: "(string \<times> GitBlameAnalysis) list \<Rightarrow> string \<Rightarrow> bool" where
  "has m k = (k \<in> fst ` set m)"

text \<open>A write through \<^verbatim>\<open>currentCommit\<close>; the callers test the reference first.\<close>

definition update_current :: "(GitBlameAnalysis \<Rightarrow> GitBlameAnalysis) \<Rightarrow> parse_state \<Rightarrow> parse_state" where
  "update_current f st =
     (case currentCommit st of
        None \<Rightarrow> st
      | Some h \<Rightarrow> st\<lparr>commitMap := AList.map_entry h f (commitMap st)\<rparr>)"

text \<open>
  \<^verbatim>\<open>
  const commitMatch = line.match(/^([a-f0-9]+)\s+/)
  if (commitMatch && !line.includes("\t")) {
    const hash = commitMatch[1]
    if (!commitMap.has(hash)) {
      currentCommit = { commitHash: hash, author: "Unknown", commitDate: "", ... }
      commitMap.set(hash, currentCommit)
    }
  }
  \<close>
\<close>

definition see_commit :: "string \<Rightarrow> parse_state \<Rightarrow> parse_state" where
  "see_commit line st =
     (case commitMatch line of
        None \<Rightarrow> st
      | Some hash \<Rightarrow>
          if CHR 0x09 \<notin> set line \<and> \<not> has (commitMap st) hash
          then \<lparr> commitMap = AList.update hash (newCommit hash) (commitMap st),
                 currentCommit = Some hash \<rparr>
          else st)"

text \<open>
  The body of the \<^verbatim>\<open>summary\<close> branch, as a function of the current record:
  \<^verbatim>\<open>
  currentCommit.commitMessage = message
  const { prNumber, prSource } = extractPRNumber(message)
  if (prNumber) {
    currentCommit.prNumber = prNumber
    currentCommit.prSource = prSource
    currentCommit.prUrl = getPRUrl(prNumber, prSource)
  }
  const commitDateObj = new Date(currentCommit.commitDate)
  commitDateObj.setHours(0, 0, 0, 0)
  currentCommit.inDateRange = commitDateObj >= startDateObj
  currentCommit.withinOneYear = commitDateObj >= oneYearAgo
  \<close>
\<close>

definition finalize :: "zone \<Rightarrow> int option \<Rightarrow> int \<Rightarrow> string \<Rightarrow> GitBlameAnalysis \<Rightarrow> GitBlameAnalysis" where
  "finalize LocalTZA startDateObj oneYearAgo message c =
     (let c1 = c\<lparr>commitMessage := message\<rparr>;
          (n, src) = extractPRNumber message;
          c2 = (case n of
                  None \<Rightarrow> c1
                | Some num \<Rightarrow>
                    if num = [] then c1
                    else c1\<lparr>prNumber := Some num, prSource := src, prUrl := Some (getPRUrl num src)\<rparr>);
          commitDateObj = setHours0 LocalTZA (Date_of_string (commitDate c2))
      in c2\<lparr>inDateRange := date_ge commitDateObj startDateObj,
             withinOneYear := date_ge commitDateObj (Some oneYearAgo)\<rparr>)"

text \<open>One turn of the loop over the lines of the blame output.\<close>

definition processLine ::
  "zone \<Rightarrow> int option \<Rightarrow> int \<Rightarrow> parse_state \<Rightarrow> string \<Rightarrow> exn + parse_state" where
  "processLine LocalTZA startDateObj oneYearAgo st line =
     (if trim line = [] then Inr st
      else
        let st1 = see_commit line st in
        if startsWith line ''author '' \<and> currentCommit st1 \<noteq> None then
          Inr (update_current (\<lambda>c. c\<lparr>author := replace line ''author '' ''''\<rparr>) st1)
        else if startsWith line ''author-time '' \<and> currentCommit st1 \<noteq> None then
          (let timestamp = parseInt (replace line ''author-time '' '''') in
           case toISOString_date (Date_of_number (map_option (\<lambda>t. t * 1000) timestamp)) of
             Inl e \<Rightarrow> Inl e
           | Inr d \<Rightarrow> Inr (update_current (\<lambda>c. c\<lparr>commitDate := d\<rparr>) st1))
        else if startsWith line ''summary '' \<and> currentCommit st1 \<noteq> None then
          Inr (update_current
                 (finalize LocalTZA startDateObj oneYearAgo (replace line ''summary '' '''')) st1)
        else Inr st1)"

fun parseLines ::
  "zone \<Rightarrow> int option \<Rightarrow> int \<Rightarrow> parse_state \<Rightarrow> string list \<Rightarrow> exn + parse_state" where
  "parseLines LocalTZA startDateObj oneYearAgo st [] = Inr st"
| "parseLines LocalTZA startDateObj oneYearAgo st (line # lines) =
     (case processLine LocalTZA startDateObj oneYearAgo st line of
        Inl e \<Rightarrow> Inl e
      | Inr st' \<Rightarrow> parseLines LocalTZA startDateObj oneYearAgo st' lines)"

text \<open>
  The comparator of the final sort,
  \<^verbatim>\<open>(a, b) => new Date(b.commitDate).getTime() - new Date(a.commitDate).getTime()\<close>;
  a \<^verbatim>\<open>NaN\<close> result counts as 0 in \<^verbatim>\<open>sort\<close>.
\<close>

definition byDateDesc :: "GitBlameAnalysis \<Rightarrow> GitBlameAnalysis \<Rightarrow> int" where
  "byDateDesc a b =
     (case Date_of_string (commitDate b) of
        None \<Rightarrow> 0
      | Some tb \<Rightarrow> (case Date_of_string (commitDate a) of None \<Rightarrow> 0 | Some ta \<Rightarrow> tb - ta))"

definition blameCmd :: "string \<Rightarrow> int option \<Rightarrow> int option \<Rightarrow> string" where
  "blameCmd filePath lineStart lineEnd =
     ''git blame -l --incremental'' @
     (case lineStart of
        None \<Rightarrow> ''''
      | Some s \<Rightarrow> (case lineEnd of
                     None \<Rightarrow> ''''
                   | Some e \<Rightarrow> '' -L '' @ numberToString s @ '','' @ numberToString e)) @
     '' '' @ [CHR 0x22] @ filePath @ [CHR 0x22]"

text \<open>
  The \<^verbatim>\<open>try\<close> block of \<^verbatim>\<open>analyzeBlameResults\<close>. The environment is explicit:
  \<open>exec\<close> runs a command in a working directory and returns its standard output or
  the exception it rejects with, \<open>LocalTZA\<close> is the host's time zone and
  \<open>oneYearAgo\<close> the time value of \<^verbatim>\<open>new Date()\<close> after
  \<^verbatim>\<open>setFullYear(getFullYear() - 1)\<close>.
\<close>

definition analyzeBlameResults_try ::
  "(string \<Rightarrow> string \<Rightarrow> exn + string) \<Rightarrow> zone \<Rightarrow> int \<Rightarrow>
   string \<Rightarrow> int option \<Rightarrow> int option \<Rightarrow> datestr \<Rightarrow> string \<Rightarrow> exn + GitBlameAnalysis list" where
  "analyzeBlameResults_try exec LocalTZA oneYearAgo filePath lineStart lineEnd startDate projectRoot =
     (case exec (blameCmd filePath lineStart lineEnd) projectRoot of
        Inl e \<Rightarrow> Inl e
      | Inr stdout \<Rightarrow>
          let startDateObj = setHours0 LocalTZA (Date_of_string startDate) in
          (case parseLines LocalTZA startDateObj oneYearAgo
                  \<lparr>commitMap = [], currentCommit = None\<rparr> (split stdout (CHR 0x0A)) of
             Inl e \<Rightarrow> Inl e
           | Inr st \<Rightarrow>
               Inr (sort_by byDateDesc (filter withinOneYear (map snd (commitMap st))))))"

text \<open>The whole function: \<^verbatim>\<open>catch (error) { console.error(...); return [] }\<close>.\<close>

definition analyzeBlameResults ::
  "(string \<Rightarrow> string \<Rightarrow> exn + string) \<Rightarrow> zone \<Rightarrow> int \<Rightarrow>
   string \<Rightarrow> int option \<Rightarrow> int option \<Rightarrow> datestr \<Rightarrow> string \<Rightarrow> exn + GitBlameAnalysis list" where
  "analyzeBlameResults exec LocalTZA oneYearAgo filePath lineStart lineEnd startDate projectRoot =
     (case analyzeBlameResults_try exec LocalTZA oneYearAgo filePath lineStart lineEnd startDate
             projectRoot of
        Inl e \<Rightarrow> Inr []
      | Inr r \<Rightarrow> Inr r)"

text \<open>
  The flag \<open>inDateRange\<close> as the specification words it: the calendar date of the
  commit is the start date or a later day, compared by whole days.
\<close>

definition spec_inDateRange :: "datestr \<Rightarrow> datestr \<Rightarrow> bool" where
  "spec_inDateRange startDate date =
     (case startDate of
        NoDate \<Rightarrow> False
      | YMD s \<Rightarrow> (case date of NoDate \<Rightarrow> False | YMD d \<Rightarrow> s \<le> d))"

section \<open>Method Locator\<close>

text \<open>
  The signature pattern of \<^verbatim>\<open>findMethodLineRange\<close> is
  \<^verbatim>\<open>(public|private|protected|internal)?\s*(async\s*)?(static\s*)?.*?\s+NAME\s*\(\<close>
  with flag \<^verbatim>\<open>i\<close>, where \<^verbatim>\<open>NAME\<close> is the method name with every
  metacharacter escaped, that is, the name taken literally. A regular expression is the
  function from a string to the remainders it can leave after matching a prefix of it;
  \<^verbatim>\<open>test\<close> succeeds when some position of the line leaves a remainder. Literals
  compare without regard to case.
\<close>

type_synonym rx = "string \<Rightarrow> string list"

definition rx_lit :: "string \<Rightarrow> rx" where
  "rx_lit w s = (if toLowerCase (take (length w) s) = toLowerCase w then [drop (length w) s] else [])"

definition rx_alt :: "rx \<Rightarrow> rx \<Rightarrow> rx" where
  "rx_alt r1 r2 s = r1 s @ r2 s"

definition rx_seq :: "rx \<Rightarrow> rx \<Rightarrow> rx" where
  "rx_seq r1 r2 s = concat (map r2 (r1 s))"

definition rx_opt :: "rx \<Rightarrow> rx" where
  "rx_opt r s = r s @ [s]"

fun rx_star :: "(char \<Rightarrow> bool) \<Rightarrow> rx" where
  "rx_star P [] = [[]]"
| "rx_star P (c # cs) = (if P c then rx_star P cs @ [c # cs] else [c # cs])"

fun rx_star_lazy :: "(char \<Rightarrow> bool) \<Rightarrow> rx" where
  "rx_star_lazy P [] = [[]]"
| "rx_star_lazy P (c # cs) = (c # cs) # (if P c then rx_star_lazy P cs else [])"

definition rx_plus :: "(char \<Rightarrow> bool) \<Rightarrow> rx" where
  "rx_plus P s = (case s of [] \<Rightarrow> [] | c # cs \<Rightarrow> if P c then rx_star P cs else [])"

fun rx_test :: "rx \<Rightarrow> string \<Rightarrow> bool" where
  "rx_test r [] = (r [] \<noteq> [])"
| "rx_test r (c # cs) = (r (c # cs) \<noteq> [] \<or> rx_test r cs)"

definition isLineTerminator :: "char \<Rightarrow> bool" where
  "isLineTerminator c = (c = CHR 0x0A \<or> c = CHR 0x0D)"

definition methodPattern :: "string \<Rightarrow> rx" where
  "methodPattern name =
     rx_seq (rx_opt (rx_alt (rx_lit ''public'') (rx_alt (rx_lit ''private'')
                (rx_alt (rx_lit ''protected'') (rx_lit ''internal'')))))
    (rx_seq (rx_star isWhiteSpace)
    (rx_seq (rx_opt (rx_seq (rx_lit ''async'') (rx_star isWhiteSpace)))
    (rx_seq (rx_opt (rx_seq (rx_lit ''static'') (rx_star isWhiteSpace)))
    (rx_seq (rx_star_lazy (\<lambda>c. \<not> isLineTerminator c))
    (rx_seq (rx_plus isWhiteSpace)
    (rx_seq (rx_lit name)
    (rx_seq (rx_star isWhiteSpace)
            (rx_lit ''(''))))))))"

text \<open>The first loop: the index of the first line the pattern matches, if any.\<close>

fun findIndex :: "('a \<Rightarrow> bool) \<Rightarrow> 'a list \<Rightarrow> nat option" where
  "findIndex P [] = None"
| "findIndex P (x # xs) = (if P x then Some 0 else map_option Suc (findIndex P xs))"

definition count_char :: "char \<Rightarrow> string \<Rightarrow> int" where
  "count_char c line = int (length (filter (\<lambda>x. x = c) line))"

text \<open>
  The second loop, from line \<open>i\<close> on: \<open>Some\<close> of the line at which it breaks, or
  \<open>None\<close> when it runs off the end of the file.
  \<^verbatim>\<open>
  braceCount += (line.match(/{/g) || []).length
  braceCount -= (line.match(/}/g) || []).length
  if (braceCount > 0) { foundOpeningBrace = true }
  if (foundOpeningBrace && braceCount === 0) { methodEndLine = i; break }
  \<close>
\<close>

fun scanBraces :: "string list \<Rightarrow> nat \<Rightarrow> int \<Rightarrow> bool \<Rightarrow> nat option" where
  "scanBraces [] i braceCount foundOpeningBrace = None"
| "scanBraces (line # rest) i braceCount foundOpeningBrace =
     (let braceCount' = braceCount + count_char (CHR ''{'') line - count_char (CHR ''}'') line;
          found' = (foundOpeningBrace \<or> braceCount' > 0)
      in if found' \<and> braceCount' = 0 then Some i
         else scanBraces rest (Suc i) braceCount' found')"

text \<open>
  The file system maps a path to what is there: nothing, a readable file with its
  text, or something \<^verbatim>\<open>readFileSync\<close> fails on (a directory, a file without read
  permission).
\<close>

datatype fs_node = File string | Unreadable

record line_range =
  range_start :: nat
  range_end :: nat

definition readFileSync :: "(string \<Rightarrow> fs_node option) \<Rightarrow> string \<Rightarrow> exn + string" where
  "readFileSync fs filePath =
     (case fs filePath of
        Some (File content) \<Rightarrow> Inr content
      | _ \<Rightarrow> Inl (FsError filePath))"

definition findMethodLineRange_try ::
  "(string \<Rightarrow> fs_node option) \<Rightarrow> string \<Rightarrow> string \<Rightarrow> exn + line_range option" where
  "findMethodLineRange_try fs filePath name =
     (if fs filePath = None then Inr None
      else
        case readFileSync fs filePath of
          Inl e \<Rightarrow> Inl e
        | Inr content \<Rightarrow>
            let lines = split content (CHR 0x0A) in
            (case findIndex (rx_test (methodPattern name)) lines of
               None \<Rightarrow> Inr None
             | Some methodStartLine \<Rightarrow>
                 let methodEndLine =
                       (case scanBraces (drop methodStartLine lines) methodStartLine 0 False of
                          None \<Rightarrow> methodStartLine
                        | Some i \<Rightarrow> i)
                 in Inr (Some \<lparr> range_start = methodStartLine + 1,
                                 range_end = min (methodEndLine + 1) (length lines) \<rparr>)))"

text \<open>The whole function: \<^verbatim>\<open>catch (error) { console.error(...); return null }\<close>.\<close>

definition findMethodLineRange ::
  "(string \<Rightarrow> fs_node option) \<Rightarrow> string \<Rightarrow> string \<Rightarrow> exn + line_range option" where
  "findMethodLineRange fs filePath name =
     (case findMethodLineRange_try fs filePath name of
        Inl e \<Rightarrow> Inr None
      | Inr r \<Rightarrow> Inr r)"

text \<open>
  The running counter of the second loop after a block of lines: opening braces minus
  closing braces.
\<close>

definition braceBalance :: "string list \<Rightarrow> int" where
  "braceBalance ls = (\<Sum>line\<leftarrow>ls. count_char (CHR ''{'') line - count_char (CHR ''}'') line)"

section \<open>File Resolver\<close>

text \<open>\<^verbatim>\<open>s.replace(/\\/g, "/")\<close> and \<^verbatim>\<open>s.replace(/^\//, "")\<close>.\<close>

definition normalizeSlashes :: "string \<Rightarrow> string" where
  "normalizeSlashes s = map (\<lambda>c. if c = CHR 0x5C then CHR ''/'' else c) s"

definition stripLeadingSlash :: "string \<Rightarrow> string" where
  "stripLeadingSlash s = (case s of [] \<Rightarrow> [] | c # cs \<Rightarrow> if c = CHR ''/'' then cs else c # cs)"

text \<open>
  The loop that counts \<^verbatim>\<open>consecutiveMatches\<close>:
  \<^verbatim>\<open>
  for (let i = 0; i < namespaceParts.length && i < pathParts.length; i++) {
    if (pathParts[i].toLowerCase() === namespaceParts[i]) { consecutiveMatches++ }
  }
  \<close>
\<close>

fun countMatches :: "string list \<Rightarrow> string list \<Rightarrow> nat" where
  "countMatches (p # ps) (n # ns) = (if toLowerCase p = n then 1 else 0) + countMatches ps ns"
| "countMatches _ _ = 0"

definition totalMatches :: "string \<Rightarrow> string list \<Rightarrow> nat" where
  "totalMatches relativePath namespaceParts =
     length (filter (\<lambda>part. str_includes relativePath part) namespaceParts)"

definition relativePath_of :: "string \<Rightarrow> string \<Rightarrow> string" where
  "relativePath_of filePath projectRoot =
     (let normalizedPath = toLowerCase (normalizeSlashes filePath);
          projectRootNorm = toLowerCase (normalizeSlashes projectRoot)
      in stripLeadingSlash (replace normalizedPath projectRootNorm ''''))"

definition namespaceParts_of :: "string \<Rightarrow> string list" where
  "namespaceParts_of ns = map toLowerCase (slice_0_m1 (split ns (CHR ''.'')))"

definition calculateNamespaceScore :: "string \<Rightarrow> string \<Rightarrow> string \<Rightarrow> nat" where
  "calculateNamespaceScore filePath ns projectRoot =
     (let relativePath = relativePath_of filePath projectRoot;
          namespaceParts = namespaceParts_of ns;
          pathParts = split relativePath (CHR ''/'');
          consecutiveMatches = countMatches pathParts namespaceParts
      in consecutiveMatches * 100 + totalMatches relativePath namespaceParts * 10)"

text \<open>
  The score as the specification words it: the consecutive prefix matches stop at the
  first path part that differs from its namespace part.
\<close>

fun spec_prefixMatches :: "string list \<Rightarrow> string list \<Rightarrow> nat" where
  "spec_prefixMatches (p # ps) (n # ns) = (if toLowerCase p = n then 1 + spec_prefixMatches ps ns else 0)"
| "spec_prefixMatches _ _ = 0"

definition spec_namespaceScore :: "string \<Rightarrow> string \<Rightarrow> string \<Rightarrow> nat" where
  "spec_namespaceScore filePath ns projectRoot =
     (let relativePath = relativePath_of filePath projectRoot;
          namespaceParts = namespaceParts_of ns
      in 100 * spec_prefixMatches (split relativePath (CHR ''/'')) namespaceParts
         + 10 * totalMatches relativePath namespaceParts)"

text \<open>The comparator \<^verbatim>\<open>(a, b) => b.score - a.score\<close> on pairs of path and score.\<close>

definition byScoreDesc :: "string \<times> nat \<Rightarrow> string \<times> nat \<Rightarrow> int" where
  "byScoreDesc a b = int (snd b) - int (snd a)"

definition findSourceFile_try ::
  "(string \<Rightarrow> string \<Rightarrow> exn + string) \<Rightarrow> string \<Rightarrow> string \<Rightarrow> exn + string option" where
  "findSourceFile_try exec ns projectRoot =
     (let parts = split ns (CHR ''.'');
          className = last parts;
          fileName = className @ ''.cs''
      in case exec (''dir /s /b '' @ [CHR 0x22] @ fileName @ [CHR 0x22]) projectRoot of
           Inl e \<Rightarrow> Inl e
         | Inr stdout \<Rightarrow>
             let filePaths = map trim (filter (\<lambda>p. trim p \<noteq> []) (split (trim stdout) (CHR 0x0A)))
             in (case filePaths of
                   [] \<Rightarrow> Inr None
                 | [p] \<Rightarrow> Inr (Some p)
                 | _ \<Rightarrow>
                     let scored = map (\<lambda>filePath. (filePath, calculateNamespaceScore filePath ns projectRoot)) filePaths
                     in (case sort_by byScoreDesc scored of
                           [] \<Rightarrow> Inr None
                         | best # _ \<Rightarrow> Inr (Some (fst best)))))"

text \<open>The whole function: \<^verbatim>\<open>catch (error) { console.error(...); return null }\<close>.\<close>

definition findSourceFile ::
  "(string \<Rightarrow> string \<Rightarrow> exn + string) \<Rightarrow> string \<Rightarrow> string \<Rightarrow> exn + string option" where
  "findSourceFile exec ns projectRoot =
     (case findSourceFile_try exec ns projectRoot of
        Inl e \<Rightarrow> Inr None
      | Inr r \<Rightarrow> Inr r)"

section \<open>Notions used in the statements and proofs\<close>

subsection \<open>Blame output as git writes it\<close>

text \<open>
  The flag \<open>inDateRange\<close> of a record is written by the \<^verbatim>\<open>summary\<close> line, from the
  date the record has at that moment. It agrees with the date of the record as long as
  no \<^verbatim>\<open>author-time\<close> line is left without a \<^verbatim>\<open>summary\<close> line after it, before
  the next hash line and before the end; \<open>pending\<close> says that such a line is open.
  Git writes the metadata of a commit in this order.
\<close>

fun dates_finalized :: "bool \<Rightarrow> string list \<Rightarrow> bool" where
  "dates_finalized pending [] = (\<not> pending)"
| "dates_finalized pending (line # lines) =
     (if trim line = [] then dates_finalized pending lines
      else if commitMatch line \<noteq> None then \<not> pending \<and> dates_finalized False lines
      else if startsWith line ''author-time '' then dates_finalized True lines
      else if startsWith line ''summary '' then dates_finalized False lines
      else dates_finalized pending lines)"

text \<open>
  Git prints the metadata of a commit with the first entry of that commit only: an
  entry that repeats a commit is its hash line and the name of the file, without an
  \<^verbatim>\<open>author\<close>, \<^verbatim>\<open>author-time\<close> or \<^verbatim>\<open>summary\<close> line. A hash line is a line
  on which the parser looks up a hash; \<open>seen\<close> are the hashes of the entries read so
  far, and \<open>fresh\<close> says that the entry being read is the first of its commit.
\<close>

definition hashOf :: "string \<Rightarrow> string option" where
  "hashOf line = (if trim line = [] \<or> CHR 0x09 \<in> set line then None else commitMatch line)"

definition isMetadata :: "string \<Rightarrow> bool" where
  "isMetadata line =
     (startsWith line ''author '' \<or> startsWith line ''author-time '' \<or> startsWith line ''summary '')"

fun metadata_once :: "string list \<Rightarrow> bool \<Rightarrow> string list \<Rightarrow> bool" where
  "metadata_once seen fresh [] = True"
| "metadata_once seen fresh (line # lines) =
     (case hashOf line of
        Some h \<Rightarrow> if h \<in> set seen then metadata_once seen False lines
                  else metadata_once (h # seen) True lines
      | None \<Rightarrow> (isMetadata line \<longrightarrow> fresh) \<and> metadata_once seen fresh lines)"

subsection \<open>Invariants of the blame parser\<close>

text \<open>A predicate that holds for every record of the map.\<close>

definition all_records :: "(GitBlameAnalysis \<Rightarrow> bool) \<Rightarrow> parse_state \<Rightarrow> bool" where
  "all_records P st = (\<forall>r \<in> snd ` set (commitMap st). P r)"

text \<open>The two pull-request fields are present together.\<close>

definition pr_paired :: "GitBlameAnalysis \<Rightarrow> bool" where
  "pr_paired r = ((prNumber r = None) = (prSource r = None))"

text \<open>
  The date of a record is a day that \<^verbatim>\<open>Date\<close> can represent; a record within the
  retention window has a date.
\<close>

definition dated :: "GitBlameAnalysis \<Rightarrow> bool" where
  "dated r = (\<exists>n. commitDate r = YMD n \<and> - 100000000 \<le> n \<and> n \<le> 100000000)"

definition date_inv :: "GitBlameAnalysis \<Rightarrow> bool" where
  "date_inv r = ((commitDate r \<noteq> NoDate \<longrightarrow> dated r) \<and> (withinOneYear r \<longrightarrow> commitDate r \<noteq> NoDate))"

text \<open>The keys of the map are distinct, and each record is stored under its own hash.\<close>

definition keyed :: "parse_state \<Rightarrow> bool" where
  "keyed st = (distinct (map fst (commitMap st)) \<and> (\<forall>(h, r) \<in> set (commitMap st). commitHash r = h))"

text \<open>
  The flag \<open>inDateRange\<close> of a record is the comparison of its date with the start
  date; while an \<^verbatim>\<open>author-time\<close> line is pending, the current record is exempt.
\<close>

definition flags_ok :: "zone \<Rightarrow> int option \<Rightarrow> GitBlameAnalysis \<Rightarrow> bool" where
  "flags_ok tz sd r = (inDateRange r = date_ge (setHours0 tz (Date_of_string (commitDate r))) sd)"

definition settled :: "zone \<Rightarrow> int option \<Rightarrow> bool \<Rightarrow> parse_state \<Rightarrow> bool" where
  "settled tz sd pending st =
     (keyed st \<and>
      (\<forall>(h, r) \<in> set (commitMap st). flags_ok tz sd r \<or> (pending \<and> currentCommit st = Some h)))"

text \<open>
  While the entries are read, the keys of the map are the hashes seen, the records
  \<open>old\<close> that were in the map at an earlier hash line are still in it, and during the
  first entry of a commit the current record is none of the old ones.
\<close>

definition entry_inv ::
  "string list \<Rightarrow> bool \<Rightarrow> (string \<times> GitBlameAnalysis) list \<Rightarrow> parse_state \<Rightarrow> bool" where
  "entry_inv seen fresh old st =
     (keyed st \<and> fst ` set (commitMap st) = set seen \<and> set old \<subseteq> set (commitMap st) \<and>
      (fresh \<longrightarrow> (\<exists>c. currentCommit st = Some c \<and> c \<notin> fst ` set old)))"

subsection \<open>Sorting by a key\<close>

text \<open>
  A comparator that orders by a key, largest first: \<open>cmp y x > 0\<close> exactly when the
  key of \<open>y\<close> is smaller than the key of \<open>x\<close>. It need only do so on the elements
  that are sorted.
\<close>

definition key_desc :: "('a \<Rightarrow> 'a \<Rightarrow> int) \<Rightarrow> ('a \<Rightarrow> int) \<Rightarrow> 'a set \<Rightarrow> bool" where
  "key_desc cmp key A = (\<forall>x\<in>A. \<forall>y\<in>A. (cmp y x > 0) = (key y < key x))"

text \<open>The time value that the comparator reads from a record.\<close>

definition date_key :: "GitBlameAnalysis \<Rightarrow> int" where
  "date_key r = (case Date_of_string (commitDate r) of None \<Rightarrow> 0 | Some t \<Rightarrow> t)"

subsection \<open>The essential part of the signature pattern\<close>

text \<open>
  The parts of the signature pattern before \<^verbatim>\<open>\s+NAME\s*\(\<close> can each match the
  empty string and only ever consume a prefix, and \<^verbatim>\<open>test\<close> may start anywhere:
  they do not change which lines the pattern accepts.
\<close>

definition methodTail :: "string \<Rightarrow> rx" where
  "methodTail name =
     rx_seq (rx_plus isWhiteSpace) (rx_seq (rx_lit name) (rx_seq (rx_star isWhiteSpace) (rx_lit ''('')))"

definition shrinks :: "rx \<Rightarrow> bool" where
  "shrinks r = (\<forall>s t. t \<in> set (r s) \<longrightarrow> (\<exists>pre. s = pre @ t))"

definition skips :: "rx \<Rightarrow> bool" where
  "skips r = (\<forall>s. s \<in> set (r s))"

section \<open>Sample inputs\<close>

text \<open>An interface file: the declaration of \<^verbatim>\<open>Submit\<close> has no body.\<close>

definition stub_fs :: "string \<Rightarrow> fs_node option" where
  "stub_fs p = (if p = ''IOrders.cs''
                then Some (File ''interface IOrders {\<newline>  void Submit(Order o);\<newline>}'')
                else None)"

text \<open>
  Incremental blame output for five lines of a file. Commit \<^verbatim>\<open>aaaa1111\<close> was
  written on day 20716 (2026-09-20) at 23:59:59 UTC, \<^verbatim>\<open>bbbb2222\<close> on day 20717
  (2026-09-21) at 23:59:59, \<^verbatim>\<open>cccc3333\<close> on day 20716 at 00:00:00 and
  \<^verbatim>\<open>dddd4444\<close> in 2017; the fourth entry repeats \<^verbatim>\<open>aaaa1111\<close>, without
  metadata, before the first entry of \<^verbatim>\<open>dddd4444\<close>. The four records are what
  the parser makes of it for the start date 2026-09-21, a zone that is one hour ahead
  of UTC all year and a clock whose \<open>oneYearAgo\<close> is 1762041600000 (2025-11-02).
\<close>

definition sample_blame :: string where
  "sample_blame =
     ''aaaa1111 1 1 1\<newline>author Alice\<newline>author-time 1789948799\<newline>summary Fix rounding (PR 1532)\<newline>filename Orders.cs\<newline>'' @
     ''bbbb2222 2 2 1\<newline>author Bob\<newline>author-time 1790035199\<newline>summary Tidy up\<newline>filename Orders.cs\<newline>'' @
     ''cccc3333 3 3 1\<newline>author Carol\<newline>author-time 1789862400\<newline>summary Merge pull request #7 from dev\<newline>filename Orders.cs\<newline>'' @
     ''aaaa1111 4 4 1\<newline>filename Orders.cs\<newline>'' @
     ''dddd4444 5 5 1\<newline>author Dave\<newline>author-time 1500000000\<newline>summary Initial import (#1)\<newline>filename Orders.cs\<newline>''"

definition sample_exec :: "string \<Rightarrow> string \<Rightarrow> exn + string" where
  "sample_exec cmd cwd = Inr sample_blame"

definition failing_exec :: "string \<Rightarrow> string \<Rightarrow> exn + string" where
  "failing_exec cmd cwd = Inl (ExecError ''ENOENT'')"

definition sample_a :: GitBlameAnalysis where
  "sample_a = \<lparr> commitHash = ''aaaa1111'', author = ''Alice'', commitDate = YMD 20716,
      commitMessage = ''Fix rounding (PR 1532)'', prNumber = Some ''1532'',
      prUrl = Some ''https://devops.wisetechglobal.com/wtg/CargoWise/_git/Dev/pullrequest/1532'',
      prSource = Some azure, inDateRange = False, withinOneYear = True \<rparr>"

definition sample_b :: GitBlameAnalysis where
  "sample_b = \<lparr> commitHash = ''bbbb2222'', author = ''Bob'', commitDate = YMD 20717,
      commitMessage = ''Tidy up'', prNumber = None, prUrl = None,
      prSource = None, inDateRange = True, withinOneYear = True \<rparr>"

definition sample_c :: GitBlameAnalysis where
  "sample_c = \<lparr> commitHash = ''cccc3333'', author = ''Carol'', commitDate = YMD 20716,
      commitMessage = ''Merge pull request #7 from dev'', prNumber = Some ''7'',
      prUrl = Some ''https://github.com/WiseTechGlobal/CargoWise/pull/7'',
      prSource = Some github, inDateRange = False, withinOneYear = True \<rparr>"

definition sample_d :: GitBlameAnalysis where
  "sample_d = \<lparr> commitHash = ''dddd4444'', author = ''Dave'', commitDate = YMD 17361,
      commitMessage = ''Initial import (#1)'', prNumber = Some ''1'',
      prUrl = Some ''https://github.com/WiseTechGlobal/CargoWise/pull/1'',
      prSource = Some github, inDateRange = False, withinOneYear = False \<rparr>"

text \<open>The lines of the sample before and after the hash line of \<^verbatim>\<open>bbbb2222\<close>.\<close>

definition sample_entry_a :: "string list" where
  "sample_entry_a =
     [''aaaa1111 1 1 1'', ''author Alice'', ''author-time 1789948799'',
      ''summary Fix rounding (PR 1532)'', ''filename Orders.cs'']"

definition sample_after_b :: "string list" where
  "sample_after_b =
     [''author Bob'', ''author-time 1790035199'', ''summary Tidy up'', ''filename Orders.cs'',
      ''cccc3333 3 3 1'', ''author Carol'', ''author-time 1789862400'',
      ''summary Merge pull request #7 from dev'', ''filename Orders.cs'',
      ''aaaa1111 4 4 1'', ''filename Orders.cs'',
      ''dddd4444 5 5 1'', ''author Dave'', ''author-time 1500000000'',
      ''summary Initial import (#1)'', ''filename Orders.cs'', '''']"

text \<open>
  The lines of the sample before and after the hash line that repeats
  \<^verbatim>\<open>aaaa1111\<close>: three first entries before it, and after it the rest of the
  repeated entry and the first entry of \<^verbatim>\<open>dddd4444\<close>, with its metadata.
\<close>

definition sample_entries_abc :: "string list" where
  "sample_entries_abc =
     [''aaaa1111 1 1 1'', ''author Alice'', ''author-time 1789948799'',
      ''summary Fix rounding (PR 1532)'', ''filename Orders.cs'',
      ''bbbb2222 2 2 1'', ''author Bob'', ''author-time 1790035199'', ''summary Tidy up'',
      ''filename Orders.cs'',
      ''cccc3333 3 3 1'', ''author Carol'', ''author-time 1789862400'',
      ''summary Merge pull request #7 from dev'', ''filename Orders.cs'']"

definition sample_after_repeat :: "string list" where
  "sample_after_repeat =
     [''filename Orders.cs'',
      ''dddd4444 5 5 1'', ''author Dave'', ''author-time 1500000000'',
      ''summary Initial import (#1)'', ''filename Orders.cs'', '''']"

text \<open>
  The zone \<^verbatim>\<open>Atlantic/Azores\<close> in 2026, from the time zone database: one hour
  behind UTC, and on UTC during summer time, from 2026-03-29T01:00Z (1774746000000)
  to 2026-10-25T01:00Z (1792890000000). A file whose only commit was written at noon
  UTC of 2026-10-25 (day 20751).
\<close>

definition Atlantic_Azores :: zone where
  "Atlantic_Azores = tzdata (- 3600000) [(1774746000000, 0), (1792890000000, - 3600000)]"

definition azores_blame :: string where
  "azores_blame =
     ''eeee5555 1 1 1\<newline>author Erin\<newline>author-time 1792929600\<newline>summary Round totals\<newline>filename Orders.cs\<newline>''"

definition azores_exec :: "string \<Rightarrow> string \<Rightarrow> exn + string" where
  "azores_exec cmd cwd = Inr azores_blame"

text \<open>
  Two files named \<^verbatim>\<open>Invoice.cs\<close> under \<^verbatim>\<open>C:\repo\<close>, as the search lists
  them: \<^verbatim>\<open>App\Core\Billing\Invoice.cs\<close> and \<^verbatim>\<open>App\Encore\Orders\Invoice.cs\<close>.
\<close>

definition score_root :: string where
  "score_root = ''C:'' @ [CHR 0x5C] @ ''repo''"

definition encore_path :: string where
  "encore_path = score_root @ [CHR 0x5C] @ ''App'' @ [CHR 0x5C] @ ''Encore'' @ [CHR 0x5C] @
     ''Orders'' @ [CHR 0x5C] @ ''Invoice.cs''"

definition core_path :: string where
  "core_path = score_root @ [CHR 0x5C] @ ''App'' @ [CHR 0x5C] @ ''Core'' @ [CHR 0x5C] @
     ''Billing'' @ [CHR 0x5C] @ ''Invoice.cs''"

definition dir_exec :: "string \<Rightarrow> string \<Rightarrow> exn + string" where
  "dir_exec cmd cwd = Inr (core_path @ [CHR 0x0D, CHR 0x0A] @ encore_path @ [CHR 0x0D, CHR 0x0A])"

section \<open>Properties of deduplication\<close>

lemma dedup_filter_keys_fresh:
  "entry_key ` set (dedup_filter seen entries) \<inter> seen = {}"
  by (induction entries arbitrary: seen) (auto simp: Let_def)

lemma dedup_filter_distinct:
  "distinct (map entry_key (dedup_filter seen entries))"
proof (induction entries arbitrary: seen)
  case Nil
  show ?case by simp
next
  case (Cons entry entries)
  have "entry_key entry \<notin> entry_key ` set (dedup_filter (insert (entry_key entry) seen) entries)"
    using dedup_filter_keys_fresh [of "insert (entry_key entry) seen" entries] by blast
  with Cons show ?case by (simp add: Let_def)
qed

lemma first_occurrences_Cons:
  "map ((!) (entry # entries)) (first_occurrences seen (entry # entries)) =
     (if entry_key entry \<in> seen
      then map ((!) entries) (first_occurrences seen entries)
      else entry # map ((!) entries) (first_occurrences (insert (entry_key entry) seen) entries))"
proof -
  have upt: "[0 ..< length (entry # entries)] = 0 # map Suc [0 ..< length entries]"
    by (simp add: upt_conv_Cons map_Suc_upt del: upt_Suc)
  show ?thesis
    unfolding first_occurrences_def upt
    by (auto simp: filter_map comp_def intro!: arg_cong [where f = "map ((!) entries)"] filter_cong)
qed

lemma dedup_filter_first_occurrences:
  "dedup_filter seen entries = map ((!) entries) (first_occurrences seen entries)"
proof (induction entries arbitrary: seen)
  case Nil
  show ?case by (simp add: first_occurrences_def)
next
  case (Cons entry entries)
  show ?case
    unfolding first_occurrences_Cons
    by (simp add: Let_def Cons.IH)
qed

text \<open>
  C7. For every list of frames, the output of \<open>deduplicateEntries\<close> has no two
  entries with the same key \<open>namespace + "." + methodName\<close>, and it consists of
  exactly the entries standing at the first occurrence of each key, in the order of
  the input.
\<close>

theorem deduplicateEntries_first_occurrence:
  "distinct (map entry_key (deduplicateEntries entries)) \<and>
   deduplicateEntries entries =
     map ((!) entries)
       (filter (\<lambda>i. entry_key (entries ! i) \<notin> entry_key ` set (take i entries))
          [0 ..< length entries])"
  using dedup_filter_distinct [of "{}" entries]
    dedup_filter_first_occurrences [of "{}" entries]
  by (simp add: deduplicateEntries_def first_occurrences_def)

section \<open>Properties of pull-request extraction\<close>

lemmas pr_defs = extractPRNumber_def merge_pr_at_def paren_hash_at_def paren_pr_at_def hash_at_def
  pr_at_def lit_def digits1_def spaces1_def startsWith_def isDigit_def isWhiteSpace_def

lemma str_includes_iff: "str_includes s p \<longleftrightarrow> (\<exists>pre post. s = pre @ p @ post)"
proof (induction s)
  case Nil
  then show ?case by auto
next
  case (Cons c cs)
  show ?case
  proof
    assume "str_includes (c # cs) p"
    then consider "startsWith (c # cs) p" | "str_includes cs p" by auto
    then show "\<exists>pre post. c # cs = pre @ p @ post"
    proof cases
      case 1
      then have "c # cs = [] @ p @ drop (length p) (c # cs)"
        unfolding startsWith_def by (metis append_Nil append_take_drop_id)
      then show ?thesis by blast
    next
      case 2
      then obtain pre post where "cs = pre @ p @ post" using Cons.IH by blast
      then have "c # cs = (c # pre) @ p @ post" by simp
      then show ?thesis by blast
    qed
  next
    assume "\<exists>pre post. c # cs = pre @ p @ post"
    then obtain pre post where eq: "c # cs = pre @ p @ post" by blast
    show "str_includes (c # cs) p"
    proof (cases pre)
      case Nil
      with eq have "startsWith (c # cs) p" by (simp add: startsWith_def)
      then show ?thesis by simp
    next
      case (Cons a pre')
      with eq have "cs = pre' @ p @ post" by simp
      with Cons.IH show ?thesis by auto
    qed
  qed
qed

lemma regex_search_found:
  assumes "\<And>post. m (p @ post) \<noteq> None"
  shows "regex_search m (pre @ p @ post) \<noteq> None"
proof (induction pre)
  case Nil
  show ?case using assms [of post] by (cases "p @ post") (auto split: option.splits)
next
  case (Cons a pre)
  then show ?case by (auto split: option.splits)
qed

lemma regex_search_None_iff:
  "regex_search m s = None \<longleftrightarrow> (\<forall>pre post. s = pre @ post \<longrightarrow> m post = None)"
proof (induction s)
  case Nil
  show ?case by simp
next
  case (Cons c cs)
  show ?case
  proof
    assume a: "regex_search m (c # cs) = None"
    then have h: "m (c # cs) = None" and t: "regex_search m cs = None"
      by (auto split: option.splits)
    show "\<forall>pre post. c # cs = pre @ post \<longrightarrow> m post = None"
    proof (intro allI impI)
      fix pre post assume eq: "c # cs = pre @ post"
      show "m post = None"
      proof (cases pre)
        case Nil with eq h show ?thesis by simp
      next
        case (Cons a pre')
        with eq have "cs = pre' @ post" by simp
        with t Cons.IH show ?thesis by blast
      qed
    qed
  next
    assume a: "\<forall>pre post. c # cs = pre @ post \<longrightarrow> m post = None"
    then have "m (c # cs) = None" by (metis append_Nil)
    moreover have "regex_search m cs = None"
      unfolding Cons.IH using a by (metis append_Cons)
    ultimately show "regex_search m (c # cs) = None" by simp
  qed
qed

lemma regex_search_NoneD: "regex_search m (pre @ post) = None \<Longrightarrow> m post = None"
  unfolding regex_search_None_iff by blast

text \<open>A pattern that starts with a literal matches nowhere in a string without the literal.\<close>

lemma lit_None_everywhere:
  assumes "\<not> str_includes s p" and "s = pre @ post"
  shows "lit p post = None"
proof (rule ccontr)
  assume "lit p post \<noteq> None"
  then have "startsWith post p" by (auto simp: lit_def split: if_splits)
  then have "post = p @ drop (length p) post"
    unfolding startsWith_def by (metis append_take_drop_id)
  then have "s = pre @ p @ drop (length p) post" using assms(2) by simp
  with assms(1) show False unfolding str_includes_iff by blast
qed

lemma merge_search_None:
  assumes "\<not> str_includes s ''Merge pull request #''"
  shows "regex_search merge_pr_at s = None"
  unfolding regex_search_None_iff
  using lit_None_everywhere [OF assms] by (simp add: merge_pr_at_def)

lemma paren_hash_at_42: "paren_hash_at (''(#42)'' @ post) = Some ''42''"
  by (simp add: pr_defs)

lemma paren_hash_search_42:
  assumes "\<not> str_includes pre ''(#''"
  shows "regex_search paren_hash_at (pre @ ''(#42)'' @ post) = Some ''42''"
  using assms
proof (induction pre)
  case Nil
  show ?case using paren_hash_at_42 [of post] by simp
next
  case (Cons c cs)
  then have no: "\<not> startsWith (c # cs) ''(#''" and rest: "\<not> str_includes cs ''(#''"
    by auto
  have "\<not> startsWith ((c # cs) @ ''(#42)'' @ post) ''(#''"
    using no by (cases cs) (auto simp: startsWith_def)
  then have "paren_hash_at ((c # cs) @ ''(#42)'' @ post) = None"
    by (simp add: paren_hash_at_def lit_def)
  with Cons.IH [OF rest] show ?case by simp
qed

lemma lit_Some_iff: "lit p s = Some r \<longleftrightarrow> s = p @ r"
proof
  assume "lit p s = Some r"
  then have "take (length p) s = p" and "drop (length p) s = r"
    by (auto simp: lit_def startsWith_def split: if_splits)
  then show "s = p @ r" by (metis append_take_drop_id)
next
  assume "s = p @ r"
  then show "lit p s = Some r" by (simp add: lit_def startsWith_def)
qed

text \<open>
  Whatever the first three patterns match holds a match of the fourth or of the fifth:
  \<^verbatim>\<open>Merge pull request #7\<close> and \<^verbatim>\<open>(#7)\<close> hold \<^verbatim>\<open>#7\<close>, and
  \<^verbatim>\<open>(PR 7)\<close> holds \<^verbatim>\<open>PR 7\<close>.
\<close>

lemma hash_at_Cons: "digits1 r \<noteq> None \<Longrightarrow> hash_at (CHR ''#'' # r) \<noteq> None"
  by (auto simp: hash_at_def lit_def startsWith_def)

lemma pr_at_Cons:
  "spaces1 r = Some r1 \<Longrightarrow> digits1 r1 \<noteq> None \<Longrightarrow> pr_at (CHR ''P'' # CHR ''R'' # r) \<noteq> None"
  by (auto simp: pr_at_def lit_def startsWith_def)

lemma hash_covers_merge:
  assumes "regex_search hash_at s = None"
  shows "regex_search merge_pr_at s = None"
  unfolding regex_search_None_iff
proof (intro allI impI)
  fix pre post assume eq: "s = pre @ post"
  show "merge_pr_at post = None"
  proof (rule ccontr)
    assume "merge_pr_at post \<noteq> None"
    then obtain r where l: "lit ''Merge pull request #'' post = Some r" and d: "digits1 r \<noteq> None"
      unfolding merge_pr_at_def by (cases "lit ''Merge pull request #'' post") auto
    from l have "post = ''Merge pull request #'' @ r" by (simp only: lit_Some_iff)
    then have split: "s = (pre @ ''Merge pull request '') @ (CHR ''#'' # r)"
      using eq by simp
    have "hash_at (CHR ''#'' # r) = None"
      by (rule regex_search_NoneD [OF assms [unfolded split]])
    with hash_at_Cons [OF d] show False by simp
  qed
qed

lemma hash_covers_paren_hash:
  assumes "regex_search hash_at s = None"
  shows "regex_search paren_hash_at s = None"
  unfolding regex_search_None_iff
proof (intro allI impI)
  fix pre post assume eq: "s = pre @ post"
  show "paren_hash_at post = None"
  proof (rule ccontr)
    assume "paren_hash_at post \<noteq> None"
    then obtain r where l: "lit ''(#'' post = Some r" and d: "digits1 r \<noteq> None"
      unfolding paren_hash_at_def by (cases "lit ''(#'' post"; cases "digits1 (the (lit ''(#'' post))") auto
    from l have "post = ''(#'' @ r" by (simp only: lit_Some_iff)
    then have split: "s = (pre @ ''('') @ (CHR ''#'' # r)"
      using eq by simp
    have "hash_at (CHR ''#'' # r) = None"
      by (rule regex_search_NoneD [OF assms [unfolded split]])
    with hash_at_Cons [OF d] show False by simp
  qed
qed

lemma pr_covers_paren_pr:
  assumes "regex_search pr_at s = None"
  shows "regex_search paren_pr_at s = None"
  unfolding regex_search_None_iff
proof (intro allI impI)
  fix pre post assume eq: "s = pre @ post"
  show "paren_pr_at post = None"
  proof (rule ccontr)
    assume m: "paren_pr_at post \<noteq> None"
    then obtain r where l: "lit ''(PR'' post = Some r"
      unfolding paren_pr_at_def by (cases "lit ''(PR'' post") auto
    with m obtain r1 where sp: "spaces1 r = Some r1"
      unfolding paren_pr_at_def by (cases "spaces1 r") auto
    with m l have d: "digits1 r1 \<noteq> None"
      unfolding paren_pr_at_def by (cases "digits1 r1") auto
    from l have "post = ''(PR'' @ r" by (simp only: lit_Some_iff)
    then have split: "s = (pre @ ''('') @ (CHR ''P'' # CHR ''R'' # r)"
      using eq by simp
    have "pr_at (CHR ''P'' # CHR ''R'' # r) = None"
      by (rule regex_search_NoneD [OF assms [unfolded split]])
    with pr_at_Cons [OF sp d] show False by simp
  qed
qed

lemma extractPRNumber_no_reference:
  "extractPRNumber message = (None, None) \<longleftrightarrow>
     regex_search hash_at message = None \<and> regex_search pr_at message = None"
  using hash_covers_merge [of message] hash_covers_paren_hash [of message]
    pr_covers_paren_pr [of message]
  by (auto simp: extractPRNumber_def split: option.splits)

lemma extractPRNumber_both_or_neither:
  "(fst (extractPRNumber message) = None) = (snd (extractPRNumber message) = None)"
  by (simp add: extractPRNumber_def split: option.splits)

lemma paren_hash_found:
  assumes "str_includes message ''(#42)''"
  shows "regex_search paren_hash_at message \<noteq> None"
proof -
  obtain pre post where "message = pre @ ''(#42)'' @ post"
    using assms unfolding str_includes_iff by blast
  moreover have "\<And>post. paren_hash_at (''(#42)'' @ post) \<noteq> None"
    using paren_hash_at_42 by simp
  ultimately show ?thesis using regex_search_found [of paren_hash_at "''(#42)''" pre post] by simp
qed

text \<open>
  C5 (amended). \<open>extractPRNumber\<close> tries the five patterns in a fixed order and the
  first that matches decides: \<^verbatim>\<open>Merge pull request #<digits>\<close> (github), then
  \<^verbatim>\<open>(#<digits>)\<close> (github), then \<^verbatim>\<open>(PR <digits>)\<close> (azure), then a bare
  \<^verbatim>\<open>#<digits>\<close> (github), then a bare \<^verbatim>\<open>PR <digits>\<close> (azure). A message
  that holds both \<^verbatim>\<open>(#42)\<close> and \<^verbatim>\<open>(PR 99)\<close> therefore resolves to github,
  never to azure, and its number is 42 when no \<^verbatim>\<open>Merge pull request #\<close> occurs in
  it and no \<^verbatim>\<open>(#\<close> occurs before that \<^verbatim>\<open>(#42)\<close>. There is no reference exactly
  when neither \<^verbatim>\<open>#<digits>\<close> nor \<^verbatim>\<open>PR <digits>\<close> occurs in the message.
\<close>

theorem extractPRNumber_priority:
  "(regex_search merge_pr_at message = Some n \<longrightarrow>
      extractPRNumber message = (Some n, Some github)) \<and>
   (regex_search merge_pr_at message = None \<and> regex_search paren_hash_at message = Some n \<longrightarrow>
      extractPRNumber message = (Some n, Some github)) \<and>
   (regex_search merge_pr_at message = None \<and> regex_search paren_hash_at message = None \<and>
    regex_search paren_pr_at message = Some n \<longrightarrow>
      extractPRNumber message = (Some n, Some azure)) \<and>
   (regex_search merge_pr_at message = None \<and> regex_search paren_hash_at message = None \<and>
    regex_search paren_pr_at message = None \<and> regex_search hash_at message = Some n \<longrightarrow>
      extractPRNumber message = (Some n, Some github)) \<and>
   (regex_search merge_pr_at message = None \<and> regex_search paren_hash_at message = None \<and>
    regex_search paren_pr_at message = None \<and> regex_search hash_at message = None \<and>
    regex_search pr_at message = Some n \<longrightarrow>
      extractPRNumber message = (Some n, Some azure)) \<and>
   (str_includes message ''(#42)'' \<and> str_includes message ''(PR 99)'' \<longrightarrow>
      (\<exists>k. extractPRNumber message = (Some k, Some github))) \<and>
   (\<not> str_includes pre ''(#'' \<and>
    \<not> str_includes (pre @ ''(#42)'' @ post) ''Merge pull request #'' \<longrightarrow>
      extractPRNumber (pre @ ''(#42)'' @ post) = (Some ''42'', Some github)) \<and>
   (extractPRNumber message = (None, None) \<longleftrightarrow>
      regex_search hash_at message = None \<and> regex_search pr_at message = None)"
proof -
  have order: "regex_search merge_pr_at message = Some n \<longrightarrow>
      extractPRNumber message = (Some n, Some github)"
    "regex_search merge_pr_at message = None \<and> regex_search paren_hash_at message = Some n \<longrightarrow>
      extractPRNumber message = (Some n, Some github)"
    "regex_search merge_pr_at message = None \<and> regex_search paren_hash_at message = None \<and>
      regex_search paren_pr_at message = Some n \<longrightarrow>
      extractPRNumber message = (Some n, Some azure)"
    "regex_search merge_pr_at message = None \<and> regex_search paren_hash_at message = None \<and>
      regex_search paren_pr_at message = None \<and> regex_search hash_at message = Some n \<longrightarrow>
      extractPRNumber message = (Some n, Some github)"
    "regex_search merge_pr_at message = None \<and> regex_search paren_hash_at message = None \<and>
      regex_search paren_pr_at message = None \<and> regex_search hash_at message = None \<and>
      regex_search pr_at message = Some n \<longrightarrow>
      extractPRNumber message = (Some n, Some azure)"
    by (simp_all add: extractPRNumber_def)
  have both: "str_includes message ''(#42)'' \<and> str_includes message ''(PR 99)'' \<longrightarrow>
      (\<exists>k. extractPRNumber message = (Some k, Some github))"
    using paren_hash_found [of message]
    by (auto simp: extractPRNumber_def split: option.splits)
  have first: "\<not> str_includes pre ''(#'' \<and>
    \<not> str_includes (pre @ ''(#42)'' @ post) ''Merge pull request #'' \<longrightarrow>
      extractPRNumber (pre @ ''(#42)'' @ post) = (Some ''42'', Some github)"
    using merge_search_None [of "pre @ ''(#42)'' @ post"] paren_hash_search_42 [of pre post]
    by (simp add: extractPRNumber_def)
  show ?thesis
    using order both first extractPRNumber_no_reference [of message] by blast
qed

text \<open>
  The theorem at three messages: one with both \<^verbatim>\<open>(#42)\<close> and \<^verbatim>\<open>(PR 99)\<close>, a
  merge commit, and a message without any reference.
\<close>

theorem extractPRNumber_priority_witness:
  "regex_search merge_pr_at ''Fix totals (#42), see (PR 99)'' = None \<and>
   regex_search paren_hash_at ''Fix totals (#42), see (PR 99)'' = Some ''42'' \<and>
   str_includes ''Fix totals (#42), see (PR 99)'' ''(#42)'' \<and>
   str_includes ''Fix totals (#42), see (PR 99)'' ''(PR 99)'' \<and>
   \<not> str_includes ''Fix totals '' ''(#'' \<and>
   \<not> str_includes ''Fix totals (#42), see (PR 99)'' ''Merge pull request #'' \<and>
   extractPRNumber ''Fix totals (#42), see (PR 99)'' = (Some ''42'', Some github) \<and>
   regex_search merge_pr_at ''Merge pull request #7 from dev'' = Some ''7'' \<and>
   extractPRNumber ''Merge pull request #7 from dev'' = (Some ''7'', Some github) \<and>
   regex_search hash_at ''Tidy up'' = None \<and> regex_search pr_at ''Tidy up'' = None \<and>
   extractPRNumber ''Tidy up'' = (None, None)"
proof -
  have a: "regex_search merge_pr_at ''Fix totals (#42), see (PR 99)'' = None"
    and b: "regex_search paren_hash_at ''Fix totals (#42), see (PR 99)'' = Some ''42''"
    and c: "str_includes ''Fix totals (#42), see (PR 99)'' ''(#42)''"
    and d: "str_includes ''Fix totals (#42), see (PR 99)'' ''(PR 99)''"
    and e: "\<not> str_includes ''Fix totals '' ''(#''"
    and f: "\<not> str_includes ''Fix totals (#42), see (PR 99)'' ''Merge pull request #''"
    and g: "regex_search merge_pr_at ''Merge pull request #7 from dev'' = Some ''7''"
    and h: "regex_search hash_at ''Tidy up'' = None" "regex_search pr_at ''Tidy up'' = None"
    by (simp_all add: pr_defs)
  from extractPRNumber_priority [of "''Fix totals (#42), see (PR 99)''" "''42''" "''Fix totals ''" "'', see (PR 99)''"]
    a b
  have 1: "extractPRNumber ''Fix totals (#42), see (PR 99)'' = (Some ''42'', Some github)"
    by simp
  from extractPRNumber_priority [of "''Merge pull request #7 from dev''" "''7''" "[]" "[]"] g
  have 2: "extractPRNumber ''Merge pull request #7 from dev'' = (Some ''7'', Some github)"
    by blast
  from extractPRNumber_priority [of "''Tidy up''" "''7''" "[]" "[]"] h
  have 3: "extractPRNumber ''Tidy up'' = (None, None)"
    by blast
  show ?thesis using a b c d e f g h 1 2 3 by blast
qed

text \<open>
  The number is not 42 for every message that holds \<^verbatim>\<open>(#42)\<close> and
  \<^verbatim>\<open>(PR 99)\<close>: a merge message is resolved by the first pattern.
\<close>

theorem extractPRNumber_42_counterexample:
  "\<not> (\<forall>message. str_includes message ''(#42)'' \<and> str_includes message ''(PR 99)'' \<longrightarrow>
         extractPRNumber message = (Some ''42'', Some github))"
proof
  assume all: "\<forall>message. str_includes message ''(#42)'' \<and> str_includes message ''(PR 99)'' \<longrightarrow>
         extractPRNumber message = (Some ''42'', Some github)"
  have "str_includes ''Merge pull request #7 (#42) (PR 99)'' ''(#42)''"
    and "str_includes ''Merge pull request #7 (#42) (PR 99)'' ''(PR 99)''"
    by (simp_all add: startsWith_def)
  with all have "extractPRNumber ''Merge pull request #7 (#42) (PR 99)'' = (Some ''42'', Some github)"
    by blast
  moreover have "extractPRNumber ''Merge pull request #7 (#42) (PR 99)'' = (Some ''7'', Some github)"
    by (simp add: pr_defs)
  ultimately show False by simp
qed

section \<open>Properties of the Method Locator\<close>

lemma findIndex_Some_less: "findIndex P xs = Some i \<Longrightarrow> i < length xs"
  by (induction xs arbitrary: i) (auto split: if_splits)

lemma braceBalance_Cons:
  "braceBalance (line # ls) =
     count_char (CHR ''{'') line - count_char (CHR ''}'') line + braceBalance ls"
  by (simp add: braceBalance_def)

text \<open>
  While the counter has not been positive, the second loop does not break: it runs off
  the end of the lines when no prefix of them has a positive balance.
\<close>

lemma scanBraces_never_positive:
  assumes "\<forall>k. braceCount + braceBalance (take k ls) \<le> 0"
  shows "scanBraces ls i braceCount False = None"
  using assms
proof (induction ls arbitrary: i braceCount)
  case Nil
  show ?case by simp
next
  case (Cons line ls)
  let ?b = "braceCount + count_char (CHR ''{'') line - count_char (CHR ''}'') line"
  have step: "\<forall>k. ?b + braceBalance (take k ls) \<le> 0"
  proof
    fix k
    from Cons.prems have "braceCount + braceBalance (take (Suc k) (line # ls)) \<le> 0" by blast
    then show "?b + braceBalance (take k ls) \<le> 0" by (simp add: braceBalance_Cons)
  qed
  from step have "?b + braceBalance (take 0 ls) \<le> 0" by blast
  then have le: "?b \<le> 0" by (simp add: braceBalance_def)
  then have "\<not> ?b > 0" by simp
  with Cons.IH [OF step] show ?case by (simp add: Let_def)
qed

lemma findMethodLineRange_existing:
  assumes "fs filePath = Some (File content)"
  shows "findMethodLineRange fs filePath name =
     (case findIndex (rx_test (methodPattern name)) (split content (CHR 0x0A)) of
        None \<Rightarrow> Inr None
      | Some s \<Rightarrow>
          Inr (Some \<lparr> range_start = s + 1,
                       range_end = min ((case scanBraces (drop s (split content (CHR 0x0A))) s 0 False of
                                           None \<Rightarrow> s | Some i \<Rightarrow> i) + 1)
                                       (length (split content (CHR 0x0A))) \<rparr>))"
  using assms
  by (simp add: findMethodLineRange_def findMethodLineRange_try_def readFileSync_def Let_def
      split: option.splits)

text \<open>
  C1 (amended). When the signature pattern matches a line of the file and, scanning
  from the first such line on, the running open-minus-close brace counter never
  becomes positive (an abstract or interface stub with a semicolon and no braces),
  \<open>findMethodLineRange\<close> returns the one-line range of the declaration line: both
  \<open>start\<close> and \<open>end\<close> are its 1-based number.
\<close>

theorem findMethodLineRange_no_body:
  assumes "fs filePath = Some (File content)"
    and "findIndex (rx_test (methodPattern name)) (split content (CHR 0x0A)) = Some s"
    and "\<forall>k. braceBalance (take k (drop s (split content (CHR 0x0A)))) \<le> 0"
  shows "findMethodLineRange fs filePath name =
           Inr (Some \<lparr> range_start = s + 1, range_end = s + 1 \<rparr>)"
proof -
  have "scanBraces (drop s (split content (CHR 0x0A))) s 0 False = None"
    using assms(3) by (intro scanBraces_never_positive) simp
  moreover have "s < length (split content (CHR 0x0A))"
    using assms(2) by (rule findIndex_Some_less)
  ultimately show ?thesis
    using assms(2) findMethodLineRange_existing [of fs filePath content name] assms(1) by simp
qed

lemma rx_test_iff: "rx_test r s \<longleftrightarrow> (\<exists>pre t. s = pre @ t \<and> r t \<noteq> [])"
proof (induction s)
  case Nil
  show ?case by simp
next
  case (Cons c cs)
  show ?case
  proof
    assume "rx_test r (c # cs)"
    then consider "r (c # cs) \<noteq> []" | "rx_test r cs" by auto
    then show "\<exists>pre t. c # cs = pre @ t \<and> r t \<noteq> []"
    proof cases
      case 1
      then have "c # cs = [] @ (c # cs) \<and> r (c # cs) \<noteq> []" by simp
      then show ?thesis by blast
    next
      case 2
      then obtain pre t where "cs = pre @ t" "r t \<noteq> []" using Cons.IH by blast
      then have "c # cs = (c # pre) @ t \<and> r t \<noteq> []" by simp
      then show ?thesis by blast
    qed
  next
    assume "\<exists>pre t. c # cs = pre @ t \<and> r t \<noteq> []"
    then obtain pre t where eq: "c # cs = pre @ t" and ne: "r t \<noteq> []" by blast
    show "rx_test r (c # cs)"
    proof (cases pre)
      case Nil
      with eq have "t = c # cs" by simp
      with ne show ?thesis by simp
    next
      case (Cons a pre')
      with eq have "cs = pre' @ t" by simp
      with ne Cons.IH have "rx_test r cs" by blast
      then show ?thesis by simp
    qed
  qed
qed

lemma shrinks_lit: "shrinks (rx_lit w)"
  unfolding shrinks_def rx_lit_def
  by (auto split: if_splits) (metis append_take_drop_id)

lemma shrinks_star: "shrinks (rx_star P)"
  unfolding shrinks_def
proof (intro allI impI)
  fix s t assume "t \<in> set (rx_star P s)"
  then show "\<exists>pre. s = pre @ t"
  proof (induction s)
    case Nil
    then show ?case by simp
  next
    case (Cons c cs)
    then consider "t = c # cs" | "t \<in> set (rx_star P cs)" by (auto split: if_splits)
    then show ?case
    proof cases
      case 1 then show ?thesis by simp
    next
      case 2
      then obtain pre where "cs = pre @ t" using Cons.IH by blast
      then have "c # cs = (c # pre) @ t" by simp
      then show ?thesis by blast
    qed
  qed
qed

lemma skips_star: "skips (rx_star P)"
  unfolding skips_def
proof
  fix s show "s \<in> set (rx_star P s)" by (cases s) auto
qed

lemma shrinks_star_lazy: "shrinks (rx_star_lazy P)"
  unfolding shrinks_def
proof (intro allI impI)
  fix s t assume "t \<in> set (rx_star_lazy P s)"
  then show "\<exists>pre. s = pre @ t"
  proof (induction s)
    case Nil
    then show ?case by simp
  next
    case (Cons c cs)
    then consider "t = c # cs" | "t \<in> set (rx_star_lazy P cs)" by (auto split: if_splits)
    then show ?case
    proof cases
      case 1 then show ?thesis by simp
    next
      case 2
      then obtain pre where "cs = pre @ t" using Cons.IH by blast
      then have "c # cs = (c # pre) @ t" by simp
      then show ?thesis by blast
    qed
  qed
qed

lemma skips_star_lazy: "skips (rx_star_lazy P)"
  unfolding skips_def
proof
  fix s show "s \<in> set (rx_star_lazy P s)" by (cases s) auto
qed

lemma shrinks_alt: "shrinks r1 \<Longrightarrow> shrinks r2 \<Longrightarrow> shrinks (rx_alt r1 r2)"
  unfolding shrinks_def rx_alt_def by auto

lemma shrinks_seq:
  assumes "shrinks r1" and "shrinks r2"
  shows "shrinks (rx_seq r1 r2)"
  unfolding shrinks_def
proof (intro allI impI)
  fix s t assume "t \<in> set (rx_seq r1 r2 s)"
  then obtain u where u: "u \<in> set (r1 s)" and t: "t \<in> set (r2 u)"
    by (auto simp: rx_seq_def)
  from u assms(1) obtain p1 where "s = p1 @ u" unfolding shrinks_def by blast
  moreover from t assms(2) obtain p2 where "u = p2 @ t" unfolding shrinks_def by blast
  ultimately have "s = (p1 @ p2) @ t" by simp
  then show "\<exists>pre. s = pre @ t" by blast
qed

lemma shrinks_opt: "shrinks r \<Longrightarrow> shrinks (rx_opt r)"
  unfolding shrinks_def rx_opt_def by auto

lemma skips_opt: "skips (rx_opt r)"
  unfolding skips_def rx_opt_def by simp

lemma rx_test_seq_skip:
  assumes "shrinks p" and "skips p"
  shows "rx_test (rx_seq p r) s = rx_test r s"
proof
  assume "rx_test (rx_seq p r) s"
  then obtain pre u where s: "s = pre @ u" and ne: "rx_seq p r u \<noteq> []"
    unfolding rx_test_iff by blast
  from ne obtain v where v: "v \<in> set (p u)" and rv: "r v \<noteq> []"
    by (auto simp: rx_seq_def)
  from v assms(1) obtain p' where "u = p' @ v" unfolding shrinks_def by blast
  with s have "s = (pre @ p') @ v" by simp
  with rv show "rx_test r s" unfolding rx_test_iff by blast
next
  assume "rx_test r s"
  then obtain pre u where s: "s = pre @ u" and ne: "r u \<noteq> []"
    unfolding rx_test_iff by blast
  from assms(2) have "u \<in> set (p u)" unfolding skips_def by blast
  with ne have "rx_seq p r u \<noteq> []" by (auto simp: rx_seq_def)
  with s show "rx_test (rx_seq p r) s" unfolding rx_test_iff by blast
qed

lemma methodPattern_test: "rx_test (methodPattern name) = rx_test (methodTail name)"
proof
  fix line
  show "rx_test (methodPattern name) line = rx_test (methodTail name) line"
    unfolding methodPattern_def methodTail_def
    by (simp add: rx_test_seq_skip shrinks_opt skips_opt shrinks_alt shrinks_lit shrinks_seq
        shrinks_star skips_star shrinks_star_lazy skips_star_lazy)
qed

lemmas rx_defs = methodTail_def rx_seq_def rx_lit_def rx_plus_def
  toLowerCase_def lowerChar_def isWhiteSpace_def

lemma stub_lines:
  "split ''interface IOrders {\<newline>  void Submit(Order o);\<newline>}'' (CHR 0x0A) =
     [''interface IOrders {'', ''  void Submit(Order o);'', ''}'']"
  by simp

lemma stub_first_match:
  "findIndex (rx_test (methodPattern ''Submit''))
     [''interface IOrders {'', ''  void Submit(Order o);'', ''}''] = Some 1"
  unfolding methodPattern_test by (simp add: rx_defs)

lemma stub_never_positive:
  "\<forall>k. braceBalance (take k (drop 1 [''interface IOrders {'', ''  void Submit(Order o);'', ''}''])) \<le> 0"
proof
  fix k :: nat
  consider "k = 0" | "k = 1" | "k \<ge> 2" by (cases k; cases "k - 1") auto
  then show "braceBalance (take k (drop 1 [''interface IOrders {'', ''  void Submit(Order o);'', ''}''])) \<le> 0"
  proof cases
    case 1 then show ?thesis by (simp add: braceBalance_def)
  next
    case 2 then show ?thesis by (simp add: braceBalance_def count_char_def)
  next
    case 3
    then have "take k [''  void Submit(Order o);'', ''}''] = [''  void Submit(Order o);'', ''}'']"
      by simp
    then show ?thesis by (simp add: braceBalance_def count_char_def)
  qed
qed

theorem findMethodLineRange_no_body_witness:
  "stub_fs ''IOrders.cs'' = Some (File ''interface IOrders {\<newline>  void Submit(Order o);\<newline>}'') \<and>
   findIndex (rx_test (methodPattern ''Submit''))
     (split ''interface IOrders {\<newline>  void Submit(Order o);\<newline>}'' (CHR 0x0A)) = Some 1 \<and>
   findMethodLineRange stub_fs ''IOrders.cs'' ''Submit'' =
     Inr (Some \<lparr> range_start = 2, range_end = 2 \<rparr>)"
proof -
  have f: "stub_fs ''IOrders.cs'' = Some (File ''interface IOrders {\<newline>  void Submit(Order o);\<newline>}'')"
    by (simp add: stub_fs_def)
  have i: "findIndex (rx_test (methodPattern ''Submit''))
     (split ''interface IOrders {\<newline>  void Submit(Order o);\<newline>}'' (CHR 0x0A)) = Some 1"
    by (simp only: stub_lines stub_first_match)
  have b: "\<forall>k. braceBalance (take k (drop 1
      (split ''interface IOrders {\<newline>  void Submit(Order o);\<newline>}'' (CHR 0x0A)))) \<le> 0"
    unfolding stub_lines by (rule stub_never_positive)
  from findMethodLineRange_no_body [where fs = stub_fs and filePath = "''IOrders.cs''", OF f i b] f i
  show ?thesis by simp
qed

theorem findMethodLineRange_stub_counterexample:
  "\<not> (\<forall>fs filePath name content s.
        fs filePath = Some (File content) \<and>
        findIndex (rx_test (methodPattern name)) (split content (CHR 0x0A)) = Some s \<and>
        (\<forall>k. braceBalance (take k (drop s (split content (CHR 0x0A)))) \<le> 0) \<longrightarrow>
        findMethodLineRange fs filePath name = Inr None)"
proof
  assume all: "\<forall>fs filePath name content s.
        fs filePath = Some (File content) \<and>
        findIndex (rx_test (methodPattern name)) (split content (CHR 0x0A)) = Some s \<and>
        (\<forall>k. braceBalance (take k (drop s (split content (CHR 0x0A)))) \<le> 0) \<longrightarrow>
        findMethodLineRange fs filePath name = Inr None"
  have f: "stub_fs ''IOrders.cs'' = Some (File ''interface IOrders {\<newline>  void Submit(Order o);\<newline>}'')"
    by (simp add: stub_fs_def)
  have i: "findIndex (rx_test (methodPattern ''Submit''))
     (split ''interface IOrders {\<newline>  void Submit(Order o);\<newline>}'' (CHR 0x0A)) = Some 1"
    by (simp only: stub_lines stub_first_match)
  have b: "\<forall>k. braceBalance (take k (drop 1
      (split ''interface IOrders {\<newline>  void Submit(Order o);\<newline>}'' (CHR 0x0A)))) \<le> 0"
    unfolding stub_lines by (rule stub_never_positive)
  from all f i b have "findMethodLineRange stub_fs ''IOrders.cs'' ''Submit'' = Inr None"
    by blast
  moreover have "findMethodLineRange stub_fs ''IOrders.cs'' ''Submit'' =
     Inr (Some \<lparr> range_start = 2, range_end = 2 \<rparr>)"
    using i findMethodLineRange_existing [of stub_fs "''IOrders.cs''" _ "''Submit''", OF f]
    by (simp add: stub_lines count_char_def)
  ultimately show False by simp
qed

text \<open>
  C10. When nothing exists at the path, \<open>findMethodLineRange\<close> returns absent without
  raising, which is also what it returns for an existing file in which no line matches
  the signature pattern.
\<close>

theorem findMethodLineRange_missing_file:
  "(fs filePath = None \<longrightarrow> findMethodLineRange fs filePath name = Inr None) \<and>
   (fs filePath = Some (File content) \<and>
    findIndex (rx_test (methodPattern name)) (split content (CHR 0x0A)) = None \<longrightarrow>
      findMethodLineRange fs filePath name = Inr None)"
  by (simp add: findMethodLineRange_def findMethodLineRange_try_def readFileSync_def)

theorem findMethodLineRange_missing_file_witness:
  "stub_fs ''Missing.cs'' = None \<and>
   findMethodLineRange stub_fs ''Missing.cs'' ''Submit'' = Inr None \<and>
   stub_fs ''IOrders.cs'' = Some (File ''interface IOrders {\<newline>  void Submit(Order o);\<newline>}'') \<and>
   findIndex (rx_test (methodPattern ''Cancel''))
     (split ''interface IOrders {\<newline>  void Submit(Order o);\<newline>}'' (CHR 0x0A)) = None \<and>
   findMethodLineRange stub_fs ''IOrders.cs'' ''Cancel'' = Inr None"
proof -
  have m: "stub_fs ''Missing.cs'' = None"
    and f: "stub_fs ''IOrders.cs'' = Some (File ''interface IOrders {\<newline>  void Submit(Order o);\<newline>}'')"
    by (simp_all add: stub_fs_def)
  have i: "findIndex (rx_test (methodPattern ''Cancel''))
     (split ''interface IOrders {\<newline>  void Submit(Order o);\<newline>}'' (CHR 0x0A)) = None"
    unfolding methodPattern_test by (simp add: rx_defs)
  from findMethodLineRange_missing_file [where fs = stub_fs and filePath = "''Missing.cs''" and name = "''Submit''"] m
  have 1: "findMethodLineRange stub_fs ''Missing.cs'' ''Submit'' = Inr None" by blast
  from findMethodLineRange_missing_file [where fs = stub_fs and filePath = "''IOrders.cs''" and name = "''Cancel''"] f i
  have 2: "findMethodLineRange stub_fs ''IOrders.cs'' ''Cancel'' = Inr None" by blast
  show ?thesis using m f i 1 2 by blast
qed

section \<open>Properties of the blame parser\<close>

lemma set_map_entry_subset:
  "snd ` set (AList.map_entry k f al) \<subseteq> snd ` set al \<union> f ` snd ` set al"
  by (induction al) (auto simp: image_iff)

lemma all_records_update_current:
  assumes "all_records P st" and "\<And>r. P r \<Longrightarrow> P (f r)"
  shows "all_records P (update_current f st)"
proof (cases "currentCommit st")
  case None
  with assms(1) show ?thesis by (simp add: update_current_def)
next
  case (Some h)
  have sub: "snd ` set (AList.map_entry h f (commitMap st))
          \<subseteq> snd ` set (commitMap st) \<union> f ` snd ` set (commitMap st)"
    by (rule set_map_entry_subset)
  have "P r" if "r \<in> snd ` set (AList.map_entry h f (commitMap st))" for r
  proof -
    from that sub consider "r \<in> snd ` set (commitMap st)" | "r \<in> f ` snd ` set (commitMap st)"
      by blast
    then show ?thesis
      using assms unfolding all_records_def by cases blast+
  qed
  with Some show ?thesis
    unfolding all_records_def update_current_def by simp
qed

lemma set_update_fresh:
  "k \<notin> fst ` set al \<Longrightarrow> AList.update k v al = al @ [(k, v)]"
  by (induction al) auto

lemma all_records_see_commit:
  assumes "all_records P st" and "\<And>h. P (newCommit h)"
  shows "all_records P (see_commit line st)"
  using assms
  by (auto simp: see_commit_def all_records_def has_def set_update_fresh split: option.splits)

lemma all_records_processLine:
  assumes "all_records P st"
    and "processLine tz sd oya st line = Inr st'"
    and "\<And>h. P (newCommit h)"
    and "\<And>r a. P r \<Longrightarrow> P (r\<lparr>author := a\<rparr>)"
    and "\<And>r t n. P r \<Longrightarrow> toISOString_date (Date_of_number t) = Inr (YMD n) \<Longrightarrow> P (r\<lparr>commitDate := YMD n\<rparr>)"
    and "\<And>r m. P r \<Longrightarrow> P (finalize tz sd oya m r)"
  shows "all_records P st'"
proof (cases "trim line = []")
  case True
  with assms(1,2) show ?thesis by (simp add: processLine_def)
next
  case False
  let ?st1 = "see_commit line st"
  have st1: "all_records P ?st1"
    using assms(1,3) by (rule all_records_see_commit)
  consider (author) "startsWith line ''author '' \<and> currentCommit ?st1 \<noteq> None"
    | (time) "\<not> (startsWith line ''author '' \<and> currentCommit ?st1 \<noteq> None)"
             "startsWith line ''author-time '' \<and> currentCommit ?st1 \<noteq> None"
    | (summary) "\<not> (startsWith line ''author '' \<and> currentCommit ?st1 \<noteq> None)"
             "\<not> (startsWith line ''author-time '' \<and> currentCommit ?st1 \<noteq> None)"
             "startsWith line ''summary '' \<and> currentCommit ?st1 \<noteq> None"
    | (other) "\<not> (startsWith line ''author '' \<and> currentCommit ?st1 \<noteq> None)"
             "\<not> (startsWith line ''author-time '' \<and> currentCommit ?st1 \<noteq> None)"
             "\<not> (startsWith line ''summary '' \<and> currentCommit ?st1 \<noteq> None)"
    by blast
  then show ?thesis
  proof cases
    case author
    with False assms(2) have "st' = update_current (\<lambda>c. c\<lparr>author := replace line ''author '' ''''\<rparr>) ?st1"
      by (simp add: processLine_def Let_def)
    with st1 assms(4) show ?thesis by (simp add: all_records_update_current)
  next
    case time
    let ?t = "toISOString_date (Date_of_number (map_option (\<lambda>t. t * 1000)
                 (parseInt (replace line ''author-time '' ''''))))"
    from time False assms(2) obtain d where d: "?t = Inr d"
      and st': "st' = update_current (\<lambda>c. c\<lparr>commitDate := d\<rparr>) ?st1"
      by (auto simp: processLine_def Let_def split: sum.splits)
    from d obtain n where n: "d = YMD n"
      by (auto simp: toISOString_date_def split: option.splits)
    have "\<And>r. P r \<Longrightarrow> P (r\<lparr>commitDate := d\<rparr>)"
      using assms(5) d n by blast
    with st1 st' show ?thesis by (simp add: all_records_update_current)
  next
    case summary
    with False assms(2) have "st' = update_current
        (finalize tz sd oya (replace line ''summary '' '''')) ?st1"
      by (simp add: processLine_def Let_def)
    with st1 assms(6) show ?thesis by (simp add: all_records_update_current)
  next
    case other
    with False assms(2) have "st' = ?st1"
      by (auto simp: processLine_def Let_def split: if_splits)
    with st1 show ?thesis by simp
  qed
qed

lemma all_records_parseLines:
  assumes "all_records P st"
    and "parseLines tz sd oya st lines = Inr st'"
    and "\<And>h. P (newCommit h)"
    and "\<And>r a. P r \<Longrightarrow> P (r\<lparr>author := a\<rparr>)"
    and "\<And>r t n. P r \<Longrightarrow> toISOString_date (Date_of_number t) = Inr (YMD n) \<Longrightarrow> P (r\<lparr>commitDate := YMD n\<rparr>)"
    and "\<And>r m. P r \<Longrightarrow> P (finalize tz sd oya m r)"
  shows "all_records P st'"
  using assms(1,2)
proof (induction lines arbitrary: st)
  case Nil
  then show ?case by simp
next
  case (Cons line lines)
  from Cons.prems(2) obtain st1 where 1: "processLine tz sd oya st line = Inr st1"
    and 2: "parseLines tz sd oya st1 lines = Inr st'"
    by (auto split: sum.splits)
  have "all_records P st1"
    using Cons.prems(1) 1 assms(3,4,5,6) by (rule all_records_processLine)
  then show ?case using 2 by (rule Cons.IH)
qed

subsection \<open>The sort\<close>

lemma sort_by_snoc: "sort_by cmp (xs @ [x]) = insert_by cmp x (sort_by cmp xs)"
  by (simp add: sort_by_def)

lemma mset_insert_by: "mset (insert_by cmp x ys) = add_mset x (mset ys)"
  by (induction ys) auto

lemma mset_sort_by: "mset (sort_by cmp xs) = mset xs"
  by (induction xs rule: rev_induct) (simp_all add: sort_by_def mset_insert_by)

lemma set_sort_by: "set (sort_by cmp xs) = set xs"
  using mset_sort_by [of cmp xs] by (metis set_mset_mset)

lemma sorted_insert_by:
  assumes "key_desc cmp key (insert x (set ys))"
    and "sorted_wrt (\<lambda>a b. key b \<le> key a) ys"
  shows "sorted_wrt (\<lambda>a b. key b \<le> key a) (insert_by cmp x ys)"
  using assms
proof (induction ys)
  case Nil
  show ?case by simp
next
  case (Cons y ys)
  have kd: "key_desc cmp key (insert x (set ys))"
    using Cons.prems(1) unfolding key_desc_def by auto
  have yx: "(cmp y x > 0) = (key y < key x)"
    using Cons.prems(1) unfolding key_desc_def by auto
  show ?case
  proof (cases "cmp y x > 0")
    case True
    with yx have "key y < key x" by simp
    with Cons.prems(2) True show ?thesis by auto
  next
    case False
    with yx have le: "key x \<le> key y" by simp
    have "sorted_wrt (\<lambda>a b. key b \<le> key a) (insert_by cmp x ys)"
      using kd Cons.prems(2) by (intro Cons.IH) auto
    moreover have "\<forall>z \<in> set (insert_by cmp x ys). key z \<le> key y"
      using le Cons.prems(2) by (auto simp: set_mset_mset [symmetric] mset_insert_by simp del: set_mset_mset)
    ultimately show ?thesis using False by simp
  qed
qed

lemma sorted_sort_by:
  assumes "key_desc cmp key (set xs)"
  shows "sorted_wrt (\<lambda>a b. key b \<le> key a) (sort_by cmp xs)"
  using assms
proof (induction xs rule: rev_induct)
  case Nil
  show ?case by (simp add: sort_by_def)
next
  case (snoc x xs)
  have "key_desc cmp key (set xs)"
    using snoc.prems unfolding key_desc_def by auto
  then have "sorted_wrt (\<lambda>a b. key b \<le> key a) (sort_by cmp xs)" by (rule snoc.IH)
  moreover have "key_desc cmp key (insert x (set (sort_by cmp xs)))"
    using snoc.prems by (simp add: set_sort_by)
  ultimately show ?case
    unfolding sort_by_snoc by (intro sorted_insert_by)
qed

text \<open>Stability: the elements of one key keep the order they had.\<close>

lemma stable_insert_by:
  assumes "key_desc cmp key (insert x (set ys))"
    and "sorted_wrt (\<lambda>a b. key b \<le> key a) ys"
  shows "filter (\<lambda>z. key z = k) (insert_by cmp x ys) =
           filter (\<lambda>z. key z = k) ys @ (if key x = k then [x] else [])"
  using assms
proof (induction ys)
  case Nil
  show ?case by simp
next
  case (Cons y ys)
  have kd: "key_desc cmp key (insert x (set ys))"
    using Cons.prems(1) unfolding key_desc_def by auto
  have yx: "(cmp y x > 0) = (key y < key x)"
    using Cons.prems(1) unfolding key_desc_def by auto
  show ?case
  proof (cases "cmp y x > 0")
    case True
    with yx have lt: "key y < key x" by simp
    have "\<forall>z \<in> set (y # ys). key z < key x"
      using lt Cons.prems(2) by auto
    then have "key x = k \<Longrightarrow> filter (\<lambda>z. key z = k) (y # ys) = []"
      by (auto simp: filter_empty_conv)
    with True show ?thesis by auto
  next
    case False
    have "filter (\<lambda>z. key z = k) (insert_by cmp x ys) =
           filter (\<lambda>z. key z = k) ys @ (if key x = k then [x] else [])"
      using kd Cons.prems(2) by (intro Cons.IH) auto
    with False show ?thesis by simp
  qed
qed

lemma stable_sort_by:
  assumes "key_desc cmp key (set xs)"
  shows "filter (\<lambda>z. key z = k) (sort_by cmp xs) = filter (\<lambda>z. key z = k) xs"
  using assms
proof (induction xs rule: rev_induct)
  case Nil
  show ?case by (simp add: sort_by_def)
next
  case (snoc x xs)
  have kd: "key_desc cmp key (set xs)"
    using snoc.prems unfolding key_desc_def by auto
  have "filter (\<lambda>z. key z = k) (insert_by cmp x (sort_by cmp xs)) =
          filter (\<lambda>z. key z = k) (sort_by cmp xs) @ (if key x = k then [x] else [])"
    using snoc.prems sorted_sort_by [OF kd]
    by (intro stable_insert_by) (simp_all add: set_sort_by)
  with snoc.IH [OF kd] show ?case
    unfolding sort_by_snoc by simp
qed

subsection \<open>What the function returns\<close>

lemma analyzeBlameResults_cases:
  "analyzeBlameResults exec tz oya filePath ls le startDate root =
     (case exec (blameCmd filePath ls le) root of
        Inl e \<Rightarrow> Inr []
      | Inr stdout \<Rightarrow>
          (case parseLines tz (setHours0 tz (Date_of_string startDate)) oya
                  \<lparr>commitMap = [], currentCommit = None\<rparr> (split stdout (CHR 0x0A)) of
             Inl e \<Rightarrow> Inr []
           | Inr st \<Rightarrow> Inr (sort_by byDateDesc (filter withinOneYear (map snd (commitMap st))))))"
  by (simp add: analyzeBlameResults_def analyzeBlameResults_try_def Let_def split: sum.splits)

text \<open>Every record of the result is a record of the final map, when there is one.\<close>

lemma analyzeBlameResults_records:
  assumes "analyzeBlameResults exec tz oya filePath ls le startDate root = Inr rs"
    and "r \<in> set rs"
  obtains stdout st where "exec (blameCmd filePath ls le) root = Inr stdout"
    and "parseLines tz (setHours0 tz (Date_of_string startDate)) oya
           \<lparr>commitMap = [], currentCommit = None\<rparr> (split stdout (CHR 0x0A)) = Inr st"
    and "rs = sort_by byDateDesc (filter withinOneYear (map snd (commitMap st)))"
    and "r \<in> snd ` set (commitMap st)" and "withinOneYear r"
proof -
  from assms obtain stdout where 1: "exec (blameCmd filePath ls le) root = Inr stdout"
    unfolding analyzeBlameResults_cases by (cases "exec (blameCmd filePath ls le) root") auto
  with assms obtain st where 2: "parseLines tz (setHours0 tz (Date_of_string startDate)) oya
           \<lparr>commitMap = [], currentCommit = None\<rparr> (split stdout (CHR 0x0A)) = Inr st"
    unfolding analyzeBlameResults_cases
    by (cases "parseLines tz (setHours0 tz (Date_of_string startDate)) oya
           \<lparr>commitMap = [], currentCommit = None\<rparr> (split stdout (CHR 0x0A))") auto
  from assms(1) 1 2 have 3: "rs = sort_by byDateDesc (filter withinOneYear (map snd (commitMap st)))"
    unfolding analyzeBlameResults_cases by simp
  with assms(2) have "r \<in> snd ` set (commitMap st)" and "withinOneYear r"
    by (auto simp: set_sort_by)
  with 1 2 3 show ?thesis by (rule that)
qed

subsection \<open>Pull-request fields of a record\<close>

lemma pr_paired_finalize: "pr_paired r \<Longrightarrow> pr_paired (finalize tz sd oya m r)"
  using extractPRNumber_both_or_neither [of m]
  by (cases "extractPRNumber m")
     (auto simp: finalize_def pr_paired_def Let_def split: option.splits)

lemma pr_paired_parseLines:
  assumes "parseLines tz sd oya \<lparr>commitMap = [], currentCommit = None\<rparr> lines = Inr st"
  shows "all_records pr_paired st"
proof (rule all_records_parseLines [OF _ assms])
  show "all_records pr_paired \<lparr>commitMap = [], currentCommit = None\<rparr>"
    by (simp add: all_records_def)
qed (simp_all add: pr_paired_def newCommit_def pr_paired_finalize [unfolded pr_paired_def])

text \<open>
  C8. \<open>extractPRNumber\<close> yields a number exactly when it yields a source, and in every
  commit record that \<open>analyzeBlameResults\<close> returns \<open>prSource\<close> is present if and only
  if \<open>prNumber\<close> is present.
\<close>

theorem prSource_iff_prNumber:
  "((fst (extractPRNumber message) = None) = (snd (extractPRNumber message) = None)) \<and>
   (analyzeBlameResults exec tz oya filePath ls le startDate root = Inr rs \<longrightarrow>
      (\<forall>r \<in> set rs. (prNumber r = None) = (prSource r = None)))"
proof (intro conjI impI ballI)
  show "(fst (extractPRNumber message) = None) = (snd (extractPRNumber message) = None)"
    by (rule extractPRNumber_both_or_neither)
next
  fix r
  assume res: "analyzeBlameResults exec tz oya filePath ls le startDate root = Inr rs"
    and r: "r \<in> set rs"
  from res r obtain stdout st where
    "parseLines tz (setHours0 tz (Date_of_string startDate)) oya
           \<lparr>commitMap = [], currentCommit = None\<rparr> (split stdout (CHR 0x0A)) = Inr st"
    and "r \<in> snd ` set (commitMap st)"
    by (rule analyzeBlameResults_records)
  with pr_paired_parseLines have "pr_paired r"
    unfolding all_records_def by blast
  then show "(prNumber r = None) = (prSource r = None)" by (simp add: pr_paired_def)
qed

lemmas blame_eval = processLine_def see_commit_def
  update_current_def finalize_def commitMatch_def isHex_def has_def newCommit_def parseInt_def digit_value_def
  toISOString_date_def Date_of_number_def Date_of_string_def TimeClip_def setHours0_def LocalTime_def UTC_def fixed_offset_def date_ge_def msPerDay_def
  trim_def getPRUrl_def startsWith_def isWhiteSpace_def isDigit_def Let_def

lemma sample_lines:
  "split sample_blame (CHR 0x0A) =
    [''aaaa1111 1 1 1'', ''author Alice'', ''author-time 1789948799'',
     ''summary Fix rounding (PR 1532)'', ''filename Orders.cs'',
     ''bbbb2222 2 2 1'', ''author Bob'', ''author-time 1790035199'', ''summary Tidy up'',
     ''filename Orders.cs'',
     ''cccc3333 3 3 1'', ''author Carol'', ''author-time 1789862400'',
     ''summary Merge pull request #7 from dev'', ''filename Orders.cs'',
     ''aaaa1111 4 4 1'', ''filename Orders.cs'',
     ''dddd4444 5 5 1'', ''author Dave'', ''author-time 1500000000'',
     ''summary Initial import (#1)'', ''filename Orders.cs'', '''']"
  by (simp add: sample_blame_def)

lemma sample_parse:
  "parseLines (fixed_offset 3600000) (setHours0 (fixed_offset 3600000) (Date_of_string (YMD 20717))) 1762041600000
     \<lparr>commitMap = [], currentCommit = None\<rparr> (split sample_blame (CHR 0x0A)) =
   Inr \<lparr>commitMap = [(''aaaa1111'', sample_a), (''bbbb2222'', sample_b), (''cccc3333'', sample_c),
                      (''dddd4444'', sample_d)],
        currentCommit = Some ''dddd4444''\<rparr>"
  unfolding sample_lines
  by (simp add: blame_eval pr_defs sample_a_def sample_b_def sample_c_def sample_d_def)

lemma sample_result:
  "analyzeBlameResults sample_exec (fixed_offset 3600000) 1762041600000 ''Orders.cs'' (Some 1) (Some 5)
     (YMD 20717) ''C:/repo'' = Inr [sample_b, sample_a, sample_c]"
  unfolding analyzeBlameResults_cases sample_exec_def sum.case sample_parse
  by (simp add: sort_by_def byDateDesc_def
      Date_of_string_def TimeClip_def msPerDay_def
      sample_a_def sample_b_def sample_c_def sample_d_def)

theorem prSource_iff_prNumber_witness:
  "analyzeBlameResults sample_exec (fixed_offset 3600000) 1762041600000 ''Orders.cs'' (Some 1) (Some 5)
     (YMD 20717) ''C:/repo'' = Inr [sample_b, sample_a, sample_c] \<and>
   (prNumber sample_a = None) = (prSource sample_a = None) \<and>
   prNumber sample_a = Some ''1532'' \<and> prSource sample_a = Some azure \<and>
   (prNumber sample_b = None) = (prSource sample_b = None) \<and>
   prNumber sample_b = None \<and> prSource sample_b = None \<and>
   (fst (extractPRNumber ''Tidy up'') = None) = (snd (extractPRNumber ''Tidy up'') = None)"
proof -
  note inst = prSource_iff_prNumber [of "''Tidy up''" sample_exec "fixed_offset 3600000" 1762041600000
      "''Orders.cs''" "Some 1" "Some 5" "YMD 20717" "''C:/repo''" "[sample_b, sample_a, sample_c]"]
  from inst sample_result
  have all: "\<forall>r \<in> set [sample_b, sample_a, sample_c]. (prNumber r = None) = (prSource r = None)"
    by blast
  from all have a: "(prNumber sample_a = None) = (prSource sample_a = None)"
    and b: "(prNumber sample_b = None) = (prSource sample_b = None)" by simp_all
  from inst have e: "(fst (extractPRNumber ''Tidy up'') = None) = (snd (extractPRNumber ''Tidy up'') = None)"
    by blast
  have "prNumber sample_a = Some ''1532''" "prSource sample_a = Some azure"
    "prNumber sample_b = None" "prSource sample_b = None"
    by (simp_all add: sample_a_def sample_b_def)
  with sample_result a b e show ?thesis by blast
qed

subsection \<open>Failure of the external tool\<close>

text \<open>
  C9. When the invocation of the external tool fails, \<open>findSourceFile\<close> returns absent
  and \<open>analyzeBlameResults\<close> returns the empty sequence; neither function ever ends
  with an exception.
\<close>

theorem tool_failure_contained:
  "(exec (''dir /s /b '' @ [CHR 0x22] @ last (split ns (CHR ''.'')) @ ''.cs'' @ [CHR 0x22])
      projectRoot = Inl e \<longrightarrow>
      findSourceFile exec ns projectRoot = Inr None) \<and>
   (exec (blameCmd filePath ls le) projectRoot = Inl e \<longrightarrow>
      analyzeBlameResults exec tz oya filePath ls le startDate projectRoot = Inr []) \<and>
   findSourceFile exec ns projectRoot \<noteq> Inl x \<and>
   analyzeBlameResults exec tz oya filePath ls le startDate projectRoot \<noteq> Inl x"
  by (auto simp: findSourceFile_def findSourceFile_try_def analyzeBlameResults_def
      analyzeBlameResults_try_def Let_def split: sum.splits)

theorem tool_failure_contained_witness:
  "failing_exec (''dir /s /b '' @ [CHR 0x22] @ last (split ''App.Orders.OrderService'' (CHR ''.''))
      @ ''.cs'' @ [CHR 0x22]) ''C:/repo'' = Inl (ExecError ''ENOENT'') \<and>
   findSourceFile failing_exec ''App.Orders.OrderService'' ''C:/repo'' = Inr None \<and>
   failing_exec (blameCmd ''Orders.cs'' (Some 1) (Some 5)) ''C:/repo'' = Inl (ExecError ''ENOENT'') \<and>
   analyzeBlameResults failing_exec (fixed_offset 3600000) 1762041600000 ''Orders.cs'' (Some 1) (Some 5)
     (YMD 20717) ''C:/repo'' = Inr []"
proof -
  have 1: "failing_exec (''dir /s /b '' @ [CHR 0x22] @ last (split ''App.Orders.OrderService'' (CHR ''.''))
      @ ''.cs'' @ [CHR 0x22]) ''C:/repo'' = Inl (ExecError ''ENOENT'')"
    and 2: "failing_exec (blameCmd ''Orders.cs'' (Some 1) (Some 5)) ''C:/repo'' = Inl (ExecError ''ENOENT'')"
    by (simp_all only: failing_exec_def)
  note inst = tool_failure_contained [where exec = failing_exec and ns = "''App.Orders.OrderService''"
      and projectRoot = "''C:/repo''" and e = "ExecError ''ENOENT''" and filePath = "''Orders.cs''"
      and ls = "Some 1" and le = "Some 5" and tz = "fixed_offset 3600000" and oya = 1762041600000
      and startDate = "YMD 20717"]
  from inst 1 have 3: "findSourceFile failing_exec ''App.Orders.OrderService'' ''C:/repo'' = Inr None"
    by blast
  from inst 2 have 4: "analyzeBlameResults failing_exec (fixed_offset 3600000) 1762041600000 ''Orders.cs'' (Some 1) (Some 5)
     (YMD 20717) ''C:/repo'' = Inr []"
    by blast
  from 1 2 3 4 show ?thesis by blast
qed

subsection \<open>Dates of the records\<close>

lemma toISOString_date_range:
  assumes "toISOString_date (Date_of_number t) = Inr (YMD n)"
  shows "- 100000000 \<le> n \<and> n \<le> 100000000"
proof -
  from assms obtain v where v: "Date_of_number t = Some v" and n: "n = v div msPerDay"
    by (auto simp: toISOString_date_def split: option.splits)
  from v have "\<bar>v\<bar> \<le> 8640000000000000"
    by (auto simp: Date_of_number_def TimeClip_def split: option.splits if_splits)
  then have "v \<le> 8640000000000000" and "- 8640000000000000 \<le> v" by simp_all
  then have "v div 86400000 \<le> 8640000000000000 div 86400000"
    and "(- 8640000000000000) div 86400000 \<le> v div 86400000"
    by (simp_all only: zdiv_mono1 [where b = 86400000] zero_less_numeral)
  then show ?thesis unfolding n msPerDay_def by simp
qed

lemma date_inv_finalize: "date_inv r \<Longrightarrow> date_inv (finalize tz sd oya m r)"
  by (cases "extractPRNumber m")
     (auto simp: finalize_def date_inv_def dated_def Let_def date_ge_def setHours0_def
        Date_of_string_def split: option.splits)

lemma date_inv_parseLines:
  assumes "parseLines tz sd oya \<lparr>commitMap = [], currentCommit = None\<rparr> lines = Inr st"
  shows "all_records date_inv st"
proof (rule all_records_parseLines [OF _ assms])
  show "all_records date_inv \<lparr>commitMap = [], currentCommit = None\<rparr>"
    by (simp add: all_records_def)
next
  fix r t n
  assume "date_inv r" and "toISOString_date (Date_of_number t) = Inr (YMD n)"
  then show "date_inv (r\<lparr>commitDate := YMD n\<rparr>)"
    using toISOString_date_range [of t n] by (simp add: date_inv_def dated_def)
qed (simp_all add: date_inv_def dated_def newCommit_def date_inv_finalize [unfolded date_inv_def dated_def])

lemma dated_Date_of_string:
  "dated r \<Longrightarrow> \<exists>n. commitDate r = YMD n \<and> Date_of_string (commitDate r) = Some (n * msPerDay)"
  by (auto simp: dated_def Date_of_string_def TimeClip_def msPerDay_def)

lemma byDateDesc_key_desc:
  assumes "\<forall>r \<in> A. dated r"
  shows "key_desc byDateDesc date_key A"
  unfolding key_desc_def
proof (intro ballI)
  fix x y assume "x \<in> A" "y \<in> A"
  with assms have "dated x" "dated y" by auto
  then obtain n m where "Date_of_string (commitDate x) = Some n" "Date_of_string (commitDate y) = Some m"
    using dated_Date_of_string by blast
  then show "(byDateDesc y x > 0) = (date_key y < date_key x)"
    by (simp add: byDateDesc_def date_key_def)
qed

text \<open>
  C6. When the tool and the parse succeed, \<open>analyzeBlameResults\<close> returns exactly the
  records of the map whose \<open>withinOneYear\<close> flag is true, ordered by commit date with
  the most recent first, and records of one and the same date stay in the order in
  which they were discovered.
\<close>

theorem analyzeBlameResults_filtered_sorted:
  assumes "exec (blameCmd filePath ls le) projectRoot = Inr stdout"
    and "parseLines tz (setHours0 tz (Date_of_string startDate)) oya
           \<lparr>commitMap = [], currentCommit = None\<rparr> (split stdout (CHR 0x0A)) = Inr st"
  shows "\<exists>rs. analyzeBlameResults exec tz oya filePath ls le startDate projectRoot = Inr rs \<and>
          mset rs = mset (filter withinOneYear (map snd (commitMap st))) \<and>
          sorted_wrt (\<lambda>a b. date_ge (Date_of_string (commitDate a)) (Date_of_string (commitDate b))) rs \<and>
          (\<forall>d. filter (\<lambda>r. commitDate r = d) rs =
                filter (\<lambda>r. commitDate r = d) (filter withinOneYear (map snd (commitMap st))))"
proof -
  define xs where "xs = filter withinOneYear (map snd (commitMap st))"
  define rs where "rs = sort_by byDateDesc xs"
  have res: "analyzeBlameResults exec tz oya filePath ls le startDate projectRoot = Inr rs"
    unfolding analyzeBlameResults_cases rs_def xs_def using assms by simp
  have inv: "all_records date_inv st"
    using assms(2) by (rule date_inv_parseLines)
  have dated_xs: "\<forall>r \<in> set xs. dated r"
    using inv unfolding all_records_def xs_def date_inv_def by auto
  then have kd: "key_desc byDateDesc date_key (set xs)"
    by (rule byDateDesc_key_desc)
  have set_rs: "set rs = set xs" unfolding rs_def by (rule set_sort_by)
  have m: "mset rs = mset xs" unfolding rs_def by (rule mset_sort_by)
  have "sorted_wrt (\<lambda>a b. date_key b \<le> date_key a) rs"
    unfolding rs_def using kd by (rule sorted_sort_by)
  moreover have "date_ge (Date_of_string (commitDate a)) (Date_of_string (commitDate b))"
    if "a \<in> set rs" "b \<in> set rs" "date_key b \<le> date_key a" for a b
  proof -
    from that dated_xs set_rs have "dated a" "dated b" by auto
    then obtain n m where "Date_of_string (commitDate a) = Some n" "Date_of_string (commitDate b) = Some m"
      using dated_Date_of_string by blast
    with that(3) show ?thesis by (simp add: date_ge_def date_key_def)
  qed
  ultimately have s: "sorted_wrt (\<lambda>a b. date_ge (Date_of_string (commitDate a)) (Date_of_string (commitDate b))) rs"
    by (rule sorted_wrt_mono_rel [rotated]) auto
  have st: "filter (\<lambda>r. commitDate r = d) rs = filter (\<lambda>r. commitDate r = d) xs" for d
  proof (cases "\<exists>j. d = YMD j \<and> - 100000000 \<le> j \<and> j \<le> 100000000")
    case True
    then obtain j where j: "d = YMD j" "- 100000000 \<le> j" "j \<le> 100000000" by blast
    have same: "(commitDate r = d) = (date_key r = j * msPerDay)" if "dated r" for r
    proof -
      from that obtain n where n: "commitDate r = YMD n"
        and t: "Date_of_string (commitDate r) = Some (n * msPerDay)"
        using dated_Date_of_string by blast
      from t have "date_key r = n * msPerDay"
        by (simp add: date_key_def)
      with n j show ?thesis by (simp add: msPerDay_def)
    qed
    have "filter (\<lambda>r. commitDate r = d) rs = filter (\<lambda>r. date_key r = j * msPerDay) rs"
      using dated_xs set_rs same by (intro filter_cong) auto
    also have "\<dots> = filter (\<lambda>r. date_key r = j * msPerDay) xs"
      unfolding rs_def using kd by (rule stable_sort_by)
    also have "\<dots> = filter (\<lambda>r. commitDate r = d) xs"
      using dated_xs same by (intro filter_cong) auto
    finally show ?thesis .
  next
    case False
    have "commitDate r \<noteq> d" if "dated r" for r
      using that False unfolding dated_def by auto
    with dated_xs set_rs have "filter (\<lambda>r. commitDate r = d) rs = []"
      and "filter (\<lambda>r. commitDate r = d) xs = []"
      by (auto simp: filter_empty_conv)
    then show ?thesis by simp
  qed
  from res m s st show ?thesis unfolding xs_def by blast
qed

theorem analyzeBlameResults_filtered_sorted_witness:
  "sample_exec (blameCmd ''Orders.cs'' (Some 1) (Some 5)) ''C:/repo'' = Inr sample_blame \<and>
   parseLines (fixed_offset 3600000) (setHours0 (fixed_offset 3600000) (Date_of_string (YMD 20717))) 1762041600000
     \<lparr>commitMap = [], currentCommit = None\<rparr> (split sample_blame (CHR 0x0A)) =
   Inr \<lparr>commitMap = [(''aaaa1111'', sample_a), (''bbbb2222'', sample_b), (''cccc3333'', sample_c),
                      (''dddd4444'', sample_d)],
        currentCommit = Some ''dddd4444''\<rparr> \<and>
   analyzeBlameResults sample_exec (fixed_offset 3600000) 1762041600000 ''Orders.cs'' (Some 1) (Some 5)
     (YMD 20717) ''C:/repo'' = Inr [sample_b, sample_a, sample_c] \<and>
   mset [sample_b, sample_a, sample_c] = mset [sample_a, sample_b, sample_c] \<and>
   sorted_wrt (\<lambda>a b. date_ge (Date_of_string (commitDate a)) (Date_of_string (commitDate b)))
     [sample_b, sample_a, sample_c] \<and>
   filter (\<lambda>r. commitDate r = YMD 20716) [sample_b, sample_a, sample_c] = [sample_a, sample_c]"
proof -
  have e: "sample_exec (blameCmd ''Orders.cs'' (Some 1) (Some 5)) ''C:/repo'' = Inr sample_blame"
    by (simp only: sample_exec_def)
  from analyzeBlameResults_filtered_sorted [where exec = sample_exec and filePath = "''Orders.cs''"
      and ls = "Some 1" and le = "Some 5" and projectRoot = "''C:/repo''", OF e sample_parse]
  obtain rs where rs: "analyzeBlameResults sample_exec (fixed_offset 3600000) 1762041600000 ''Orders.cs''
        (Some 1) (Some 5) (YMD 20717) ''C:/repo'' = Inr rs"
    and m: "mset rs = mset (filter withinOneYear (map snd
        [(''aaaa1111'', sample_a), (''bbbb2222'', sample_b), (''cccc3333'', sample_c),
         (''dddd4444'', sample_d)]))"
    and s: "sorted_wrt (\<lambda>a b. date_ge (Date_of_string (commitDate a)) (Date_of_string (commitDate b))) rs"
    and f: "\<forall>d. filter (\<lambda>r. commitDate r = d) rs =
        filter (\<lambda>r. commitDate r = d) (filter withinOneYear (map snd
          [(''aaaa1111'', sample_a), (''bbbb2222'', sample_b), (''cccc3333'', sample_c),
           (''dddd4444'', sample_d)]))"
    by auto
  from rs sample_result have eq: "rs = [sample_b, sample_a, sample_c]" by simp
  have w: "filter withinOneYear (map snd
        [(''aaaa1111'', sample_a), (''bbbb2222'', sample_b), (''cccc3333'', sample_c),
         (''dddd4444'', sample_d)]) = [sample_a, sample_b, sample_c]"
    by (simp add: sample_a_def sample_b_def sample_c_def sample_d_def)
  from m have 1: "mset [sample_b, sample_a, sample_c] = mset [sample_a, sample_b, sample_c]"
    unfolding eq w .
  from s have 2: "sorted_wrt (\<lambda>a b. date_ge (Date_of_string (commitDate a)) (Date_of_string (commitDate b)))
     [sample_b, sample_a, sample_c]"
    unfolding eq .
  from f have "filter (\<lambda>r. commitDate r = YMD 20716) [sample_b, sample_a, sample_c] =
      filter (\<lambda>r. commitDate r = YMD 20716) [sample_a, sample_b, sample_c]"
    unfolding eq w by blast
  then have 3: "filter (\<lambda>r. commitDate r = YMD 20716) [sample_b, sample_a, sample_c] = [sample_a, sample_c]"
    by (simp add: sample_a_def sample_b_def sample_c_def)
  from e sample_parse sample_result 1 2 3 show ?thesis by blast
qed

subsection \<open>Hash lines\<close>

lemma trim_nonempty:
  assumes "c \<in> set s" and "\<not> isWhiteSpace c"
  shows "trim s \<noteq> []"
proof -
  have "c \<notin> set (takeWhile isWhiteSpace s)"
    using assms(2) by (auto dest: set_takeWhileD)
  with assms(1) have "c \<in> set (dropWhile isWhiteSpace s)"
    by (metis Un_iff set_append takeWhile_dropWhile_id)
  then have "c \<in> set (rev (dropWhile isWhiteSpace s))" by simp
  with assms(2) have "dropWhile isWhiteSpace (rev (dropWhile isWhiteSpace s)) \<noteq> []"
    by (auto simp: dropWhile_eq_Nil_conv)
  then show ?thesis by (simp add: trim_def)
qed

lemma commitMatch_hex_head:
  assumes "commitMatch line = Some h"
  shows "\<exists>c rest. line = c # rest \<and> isHex c"
proof (cases line)
  case Nil
  with assms show ?thesis by (simp add: commitMatch_def)
next
  case (Cons c rest)
  with assms have "isHex c" by (auto simp: commitMatch_def split: if_splits)
  with Cons show ?thesis by blast
qed

lemma commitMatch_not_blank:
  assumes "commitMatch line = Some h"
  shows "trim line \<noteq> []"
proof -
  from commitMatch_hex_head [OF assms] obtain c rest where "line = c # rest" "isHex c" by blast
  moreover from this have "\<not> isWhiteSpace c" by (auto simp: isHex_def isWhiteSpace_def)
  ultimately show ?thesis using trim_nonempty [of c line] by simp
qed

text \<open>A hash line is none of the three metadata lines.\<close>

lemma commitMatch_not_metadata:
  assumes "commitMatch line = Some h"
  shows "\<not> startsWith line ''author '' \<and> \<not> startsWith line ''author-time '' \<and>
         \<not> startsWith line ''summary ''"
proof (intro conjI notI)
  assume "startsWith line ''author ''"
  then obtain r where "line = ''author '' @ r" unfolding startsWith_def by (metis append_take_drop_id)
  with assms show False by (simp add: commitMatch_def isHex_def isWhiteSpace_def)
next
  assume "startsWith line ''author-time ''"
  then obtain r where "line = ''author-time '' @ r" unfolding startsWith_def by (metis append_take_drop_id)
  with assms show False by (simp add: commitMatch_def isHex_def isWhiteSpace_def)
next
  assume "startsWith line ''summary ''"
  then obtain r where "line = ''summary '' @ r" unfolding startsWith_def by (metis append_take_drop_id)
  with assms show False by (simp add: commitMatch_def isHex_def isWhiteSpace_def)
qed

lemma processLine_hash_line:
  assumes "commitMatch line = Some h"
  shows "processLine tz sd oya st line = Inr (see_commit line st)"
  using commitMatch_not_blank [OF assms] commitMatch_not_metadata [OF assms]
  by (simp add: processLine_def Let_def)

subsection \<open>Keys of the map\<close>

lemma map_entry_member:
  assumes "(k', r) \<in> set (AList.map_entry k f al)"
  shows "(k' \<noteq> k \<and> (k', r) \<in> set al) \<or> (k' = k \<and> (\<exists>r0. (k, r0) \<in> set al \<and> r = f r0)) \<or>
         (k' = k \<and> (k', r) \<in> set al)"
  using assms by (induction al) (auto split: if_splits)

lemma keyed_update_current:
  assumes "keyed st" and "\<And>r. commitHash (f r) = commitHash r"
  shows "keyed (update_current f st)"
proof (cases "currentCommit st")
  case None
  with assms(1) show ?thesis by (simp add: update_current_def)
next
  case (Some k)
  have d: "distinct (map fst (AList.map_entry k f (commitMap st)))"
    using assms(1) by (simp add: keyed_def AList.distinct_map_entry)
  have "commitHash r = h" if "(h, r) \<in> set (AList.map_entry k f (commitMap st))" for h r
    using map_entry_member [OF that] assms unfolding keyed_def by auto
  with d Some show ?thesis by (auto simp: keyed_def update_current_def)
qed

lemma keyed_see_commit: "keyed st \<Longrightarrow> keyed (see_commit line st)"
  by (auto simp: see_commit_def keyed_def has_def set_update_fresh newCommit_def split: option.splits)

lemma commitHash_finalize: "commitHash (finalize tz sd oya m r) = commitHash r"
  by (cases "extractPRNumber m") (simp add: finalize_def Let_def split: option.splits)

lemma keyed_processLine:
  assumes "keyed st" and "processLine tz sd oya st line = Inr st'"
  shows "keyed st'"
proof -
  have 1: "keyed (see_commit line st)" using assms(1) by (rule keyed_see_commit)
  have "keyed (update_current f (see_commit line st))" if "\<And>r. commitHash (f r) = commitHash r" for f
    using 1 that by (rule keyed_update_current)
  then show ?thesis
    using assms 1
    by (auto simp: processLine_def Let_def commitHash_finalize split: if_splits sum.splits)
qed

lemma keyed_parseLines:
  assumes "keyed st" and "parseLines tz sd oya st lines = Inr st'"
  shows "keyed st'"
  using assms
proof (induction lines arbitrary: st)
  case Nil
  then show ?case by simp
next
  case (Cons line lines)
  from Cons.prems(2) obtain st1 where 1: "processLine tz sd oya st line = Inr st1"
    and 2: "parseLines tz sd oya st1 lines = Inr st'"
    by (auto split: sum.splits)
  from Cons.prems(1) 1 have "keyed st1" by (rule keyed_processLine)
  then show ?case using 2 by (rule Cons.IH)
qed

lemma distinct_hashes_result:
  assumes "analyzeBlameResults exec tz oya filePath ls le startDate root = Inr rs"
  shows "distinct (map commitHash rs)"
proof (cases "rs = []")
  case True
  then show ?thesis by simp
next
  case False
  then obtain r where "r \<in> set rs" by (cases rs) auto
  with assms obtain stdout st where
    p: "parseLines tz (setHours0 tz (Date_of_string startDate)) oya
           \<lparr>commitMap = [], currentCommit = None\<rparr> (split stdout (CHR 0x0A)) = Inr st"
    and rs: "rs = sort_by byDateDesc (filter withinOneYear (map snd (commitMap st)))"
    by (rule analyzeBlameResults_records)
  have "keyed \<lparr>commitMap = [], currentCommit = None\<rparr>" by (simp add: keyed_def)
  then have k: "keyed st" using p by (rule keyed_parseLines)
  then have "\<forall>x \<in> set (commitMap st). commitHash (snd x) = fst x"
    unfolding keyed_def by auto
  then have "map (\<lambda>x. commitHash (snd x)) (commitMap st) = map fst (commitMap st)"
    by (intro map_cong) auto
  then have eq: "map commitHash (map snd (commitMap st)) = map fst (commitMap st)"
    by (simp add: comp_def)
  from k have "distinct (map fst (commitMap st))" by (simp add: keyed_def)
  then have "distinct (map commitHash (map snd (commitMap st)))" by (simp only: eq)
  then have "distinct (map commitHash (filter withinOneYear (map snd (commitMap st))))"
    by (rule distinct_map_filter)
  moreover have "mset (map commitHash rs) =
      mset (map commitHash (filter withinOneYear (map snd (commitMap st))))"
    unfolding rs by (simp add: mset_sort_by)
  ultimately show ?thesis by (metis mset_eq_imp_distinct_iff)
qed

subsection \<open>First-seen metadata\<close>

lemma hashOf_Some:
  "hashOf line = Some h \<Longrightarrow> commitMatch line = Some h \<and> CHR 0x09 \<notin> set line"
  by (auto simp: hashOf_def split: if_splits)

lemma see_commit_plain: "hashOf line = None \<Longrightarrow> trim line \<noteq> [] \<Longrightarrow> see_commit line st = st"
  by (auto simp: hashOf_def see_commit_def split: if_splits option.splits)

lemma processLine_plain:
  assumes "hashOf line = None" and "processLine z sd oya st line = Inr st'"
  shows "st' = st \<or>
         (isMetadata line \<and> (\<exists>f. (\<forall>r. commitHash (f r) = commitHash r) \<and> st' = update_current f st))"
proof (cases "trim line = []")
  case True
  with assms(2) show ?thesis by (simp add: processLine_def)
next
  case False
  with assms(1) have st1: "see_commit line st = st" by (rule see_commit_plain)
  show ?thesis
  proof (cases "isMetadata line")
    case False
    with assms(2) \<open>trim line \<noteq> []\<close> st1 show ?thesis
      by (auto simp: processLine_def Let_def isMetadata_def)
  next
    case True
    have w: "update_current f st = st \<or>
        (isMetadata line \<and> (\<exists>g. (\<forall>r. commitHash (g r) = commitHash r) \<and>
           update_current f st = update_current g st))"
      if "\<forall>r. commitHash (f r) = commitHash r" for f
      using that True by blast
    have a: "\<forall>r. commitHash (r\<lparr>author := x\<rparr>) = commitHash r" for x by simp
    have d: "\<forall>r. commitHash (r\<lparr>commitDate := x\<rparr>) = commitHash r" for x by simp
    have f: "\<forall>r. commitHash (finalize z sd oya m r) = commitHash r" for m
      by (simp add: commitHash_finalize)
    from assms(2) \<open>trim line \<noteq> []\<close> st1 have
      "st' = st \<or> (\<exists>x. st' = update_current (\<lambda>c. c\<lparr>author := x\<rparr>) st) \<or>
       (\<exists>x. st' = update_current (\<lambda>c. c\<lparr>commitDate := x\<rparr>) st) \<or>
       (\<exists>m. st' = update_current (finalize z sd oya m) st)"
      by (auto simp: processLine_def Let_def split: if_splits sum.splits)
    then show ?thesis using w [OF a] w [OF d] w [OF f] by metis
  qed
qed

lemma map_entry_other:
  "k \<noteq> c \<Longrightarrow> (k, r) \<in> set al \<Longrightarrow> (k, r) \<in> set (AList.map_entry c f al)"
  by (induction al) auto

lemma entry_inv_update_current:
  assumes "entry_inv seen True old st" and "\<forall>r. commitHash (f r) = commitHash r"
  shows "entry_inv seen True old (update_current f st)"
proof -
  from assms(1) obtain c where c: "currentCommit st = Some c" "c \<notin> fst ` set old"
    by (auto simp: entry_inv_def)
  from assms have k: "keyed (update_current f st)"
    by (simp add: entry_inv_def keyed_update_current)
  have m: "commitMap (update_current f st) = AList.map_entry c f (commitMap st)"
    and cur: "currentCommit (update_current f st) = Some c"
    using c(1) by (simp_all add: update_current_def)
  have keys: "fst ` set (commitMap (update_current f st)) = set seen"
    using assms(1) unfolding m by (simp add: entry_inv_def dom_map_entry)
  have "(k, r) \<in> set (commitMap (update_current f st))" if "(k, r) \<in> set old" for k r
  proof -
    from that c(2) have "k \<noteq> c" by force
    moreover from that assms(1) have "(k, r) \<in> set (commitMap st)" by (auto simp: entry_inv_def)
    ultimately show ?thesis unfolding m by (rule map_entry_other)
  qed
  then have "set old \<subseteq> set (commitMap (update_current f st))" by auto
  with k keys cur c(2) show ?thesis by (simp add: entry_inv_def)
qed

lemma entry_inv_hash_line:
  assumes "keyed st" and "fst ` set (commitMap st) = set seen" and "set old \<subseteq> set (commitMap st)"
    and "hashOf line = Some h"
  shows "entry_inv (if h \<in> set seen then seen else h # seen) (h \<notin> set seen) old (see_commit line st)"
proof (cases "h \<in> set seen")
  case True
  with assms have "see_commit line st = st"
    by (auto simp: see_commit_def has_def dest: hashOf_Some)
  with assms True show ?thesis by (simp add: entry_inv_def)
next
  case False
  with assms(2) have fresh: "h \<notin> fst ` set (commitMap st)" by simp
  with assms(4) have sc: "see_commit line st =
      \<lparr>commitMap = commitMap st @ [(h, newCommit h)], currentCommit = Some h\<rparr>"
    by (auto simp: see_commit_def has_def set_update_fresh dest: hashOf_Some)
  have "keyed (see_commit line st)" using assms(1) by (rule keyed_see_commit)
  moreover have "h \<notin> fst ` set old" using fresh assms(3) by auto
  ultimately show ?thesis using False assms(2,3) unfolding sc by (auto simp: entry_inv_def)
qed

lemma entry_inv_processLine:
  assumes "entry_inv seen fresh old st"
    and "metadata_once seen fresh (line # lines)"
    and "processLine z sd oya st line = Inr st'"
  shows "\<exists>seen' fresh'. entry_inv seen' fresh' old st' \<and> metadata_once seen' fresh' lines"
proof (cases "hashOf line")
  case (Some h)
  then have "commitMatch line = Some h" by (simp add: hashOf_Some)
  with assms(3) have st': "st' = see_commit line st" by (simp add: processLine_hash_line)
  from assms(1) have "entry_inv (if h \<in> set seen then seen else h # seen) (h \<notin> set seen) old st'"
    unfolding st' entry_inv_def using Some by (intro entry_inv_hash_line [unfolded entry_inv_def]) auto
  moreover from assms(2) Some
  have "metadata_once (if h \<in> set seen then seen else h # seen) (h \<notin> set seen) lines"
    by (auto split: if_splits)
  ultimately show ?thesis by blast
next
  case None
  with assms(2) have meta: "isMetadata line \<longrightarrow> fresh" and rest: "metadata_once seen fresh lines"
    by simp_all
  from processLine_plain [OF None assms(3)]
  consider "st' = st"
    | f where "isMetadata line" "\<forall>r. commitHash (f r) = commitHash r" "st' = update_current f st"
    by blast
  then show ?thesis
  proof cases
    case 1
    with assms(1) rest show ?thesis by blast
  next
    case 2
    with meta have fresh by simp
    with assms(1) 2 have "entry_inv seen True old st'" by (simp add: entry_inv_update_current)
    with \<open>fresh\<close> rest show ?thesis by auto
  qed
qed

lemma entry_inv_parseLines:
  assumes "entry_inv seen fresh old st"
    and "metadata_once seen fresh (xs @ ys)"
    and "parseLines z sd oya st xs = Inr st'"
  shows "\<exists>seen' fresh'. entry_inv seen' fresh' old st' \<and> metadata_once seen' fresh' ys"
  using assms
proof (induction xs arbitrary: seen fresh st)
  case Nil
  then show ?case by auto
next
  case (Cons line xs)
  from Cons.prems(3) obtain st1 where 1: "processLine z sd oya st line = Inr st1"
    and 2: "parseLines z sd oya st1 xs = Inr st'"
    by (auto split: sum.splits)
  from Cons.prems(2) have "metadata_once seen fresh (line # (xs @ ys))" by simp
  from entry_inv_processLine [OF Cons.prems(1) this 1]
  obtain seen1 fresh1 where "entry_inv seen1 fresh1 old st1" "metadata_once seen1 fresh1 (xs @ ys)"
    by blast
  then show ?case using 2 by (rule Cons.IH)
qed

lemma parseLines_append:
  "parseLines z sd oya st (xs @ ys) =
     (case parseLines z sd oya st xs of Inl e \<Rightarrow> Inl e | Inr st' \<Rightarrow> parseLines z sd oya st' ys)"
  by (induction xs arbitrary: st) (auto split: sum.splits)

text \<open>
  From a hash line on, the records that are in the map stay as they are, on blame
  output in which only the first entry of a commit has metadata.
\<close>

lemma records_kept:
  assumes shape: "metadata_once [] False (pre @ line # post)"
    and hl: "hashOf line = Some h"
    and pre: "parseLines z sd oya \<lparr>commitMap = [], currentCommit = None\<rparr> pre = Inr st1"
    and all: "parseLines z sd oya \<lparr>commitMap = [], currentCommit = None\<rparr> (pre @ line # post) = Inr st"
  shows "set (commitMap st1) \<subseteq> set (commitMap st)" and "keyed st1" and "keyed st"
proof -
  have "entry_inv [] False [] \<lparr>commitMap = [], currentCommit = None\<rparr>"
    by (simp add: entry_inv_def keyed_def)
  from entry_inv_parseLines [OF this shape pre]
  obtain seen1 fresh1 where i1: "entry_inv seen1 fresh1 [] st1"
    and s1: "metadata_once seen1 fresh1 (line # post)" by blast
  from i1 show "keyed st1" by (simp add: entry_inv_def)
  from all pre have rest: "parseLines z sd oya st1 (line # post) = Inr st"
    by (simp add: parseLines_append)
  from hl have "commitMatch line = Some h" by (simp add: hashOf_Some)
  then have step: "processLine z sd oya st1 line = Inr (see_commit line st1)"
    by (rule processLine_hash_line)
  with rest have post: "parseLines z sd oya (see_commit line st1) post = Inr st" by simp
  from i1 have "entry_inv (if h \<in> set seen1 then seen1 else h # seen1) (h \<notin> set seen1)
      (commitMap st1) (see_commit line st1)"
    unfolding entry_inv_def [of seen1] using hl by (intro entry_inv_hash_line) auto
  moreover from s1 hl
  have "metadata_once (if h \<in> set seen1 then seen1 else h # seen1) (h \<notin> set seen1) (post @ [])"
    by (auto split: if_splits)
  ultimately obtain seen2 fresh2 where "entry_inv seen2 fresh2 (commitMap st1) st"
    using post entry_inv_parseLines by blast
  then show "set (commitMap st1) \<subseteq> set (commitMap st)" and "keyed st"
    by (simp_all add: entry_inv_def)
qed

text \<open>
  C3. Git prints the metadata of a commit with the first entry of that commit only. On
  such blame output, cut at any line that carries a commit hash: if the hash is new,
  the line creates the record of that commit, with the default fields, and makes it
  the current one; if the hash was seen before, the line is ignored. In both cases
  every record created before that line is in the final map exactly as it stood
  there, so no \<^verbatim>\<open>author\<close>, \<^verbatim>\<open>author-time\<close> or \<^verbatim>\<open>summary\<close> line parsed after
  a repeated hash line changes a field of a record: the metadata of the first entry is
  what a record keeps. Every hash occurs at most once in the map and in the result.
\<close>

theorem blame_first_seen_wins:
  assumes "metadata_once [] False (pre @ line # post)"
    and "hashOf line = Some h"
    and "parseLines z sd oya \<lparr>commitMap = [], currentCommit = None\<rparr> pre = Inr st1"
    and "parseLines z sd oya \<lparr>commitMap = [], currentCommit = None\<rparr> (pre @ line # post) = Inr st"
  shows "processLine z sd oya st1 line =
           Inr (if has (commitMap st1) h then st1
                else \<lparr>commitMap = commitMap st1 @ [(h, newCommit h)], currentCommit = Some h\<rparr>) \<and>
         (\<forall>k r. (k, r) \<in> set (commitMap st1) \<longrightarrow> map_of (commitMap st) k = Some r) \<and>
         distinct (map fst (commitMap st)) \<and>
         (analyzeBlameResults exec z oya filePath ls le startDate projectRoot = Inr rs \<longrightarrow>
            distinct (map commitHash rs))"
proof (intro conjI allI impI)
  from assms(2) have m: "commitMatch line = Some h" and t: "CHR 0x09 \<notin> set line"
    by (simp_all add: hashOf_Some)
  have "see_commit line st1 =
      (if has (commitMap st1) h then st1
       else \<lparr>commitMap = commitMap st1 @ [(h, newCommit h)], currentCommit = Some h\<rparr>)"
    using m t by (simp add: see_commit_def has_def set_update_fresh)
  with m show "processLine z sd oya st1 line =
           Inr (if has (commitMap st1) h then st1
                else \<lparr>commitMap = commitMap st1 @ [(h, newCommit h)], currentCommit = Some h\<rparr>)"
    by (simp add: processLine_hash_line)
next
  from records_kept(3) [OF assms] show d: "distinct (map fst (commitMap st))"
    by (simp add: keyed_def)
  fix k r assume "(k, r) \<in> set (commitMap st1)"
  with records_kept(1) [OF assms] have "(k, r) \<in> set (commitMap st)" by blast
  with d show "map_of (commitMap st) k = Some r" by simp
next
  assume "analyzeBlameResults exec z oya filePath ls le startDate projectRoot = Inr rs"
  then show "distinct (map commitHash rs)" by (rule distinct_hashes_result)
qed

lemma sample_cut:
  "split sample_blame (CHR 0x0A) = sample_entry_a @ ''bbbb2222 2 2 1'' # sample_after_b"
  "split sample_blame (CHR 0x0A) = sample_entries_abc @ ''aaaa1111 4 4 1'' # sample_after_repeat"
  unfolding sample_lines
  by (simp_all add: sample_entry_a_def sample_after_b_def sample_entries_abc_def
      sample_after_repeat_def)

lemma sample_shape: "metadata_once [] False (split sample_blame (CHR 0x0A))"
  unfolding sample_lines
  by (simp add: hashOf_def isMetadata_def trim_def commitMatch_def isHex_def isWhiteSpace_def
      startsWith_def)

lemma sample_entry_a_parse:
  "parseLines (fixed_offset 3600000) (setHours0 (fixed_offset 3600000) (Date_of_string (YMD 20717)))
     1762041600000 \<lparr>commitMap = [], currentCommit = None\<rparr> sample_entry_a =
   Inr \<lparr>commitMap = [(''aaaa1111'', sample_a)], currentCommit = Some ''aaaa1111''\<rparr>"
  unfolding sample_entry_a_def
  by (simp add: blame_eval pr_defs sample_a_def)

lemma sample_entries_abc_parse:
  "parseLines (fixed_offset 3600000) (setHours0 (fixed_offset 3600000) (Date_of_string (YMD 20717)))
     1762041600000 \<lparr>commitMap = [], currentCommit = None\<rparr> sample_entries_abc =
   Inr \<lparr>commitMap = [(''aaaa1111'', sample_a), (''bbbb2222'', sample_b), (''cccc3333'', sample_c)],
        currentCommit = Some ''cccc3333''\<rparr>"
  unfolding sample_entries_abc_def
  by (simp add: blame_eval pr_defs sample_a_def sample_b_def sample_c_def)

text \<open>
  The sample, cut at the hash line of \<^verbatim>\<open>bbbb2222\<close> and at the line that repeats
  \<^verbatim>\<open>aaaa1111\<close>. The first line creates the second record, and the record that
  \<^verbatim>\<open>aaaa1111\<close> has after its first entry is the one of the final map. The second
  line changes nothing, and the three records that exist there are those of the final
  map, although the \<^verbatim>\<open>author\<close>, \<^verbatim>\<open>author-time\<close> and \<^verbatim>\<open>summary\<close> lines of
  \<^verbatim>\<open>dddd4444\<close> are parsed after it.
\<close>

theorem blame_first_seen_wins_witness:
  "metadata_once [] False (sample_entry_a @ ''bbbb2222 2 2 1'' # sample_after_b) \<and>
   hashOf ''bbbb2222 2 2 1'' = Some ''bbbb2222'' \<and>
   parseLines (fixed_offset 3600000) (setHours0 (fixed_offset 3600000) (Date_of_string (YMD 20717)))
     1762041600000 \<lparr>commitMap = [], currentCommit = None\<rparr> sample_entry_a =
     Inr \<lparr>commitMap = [(''aaaa1111'', sample_a)], currentCommit = Some ''aaaa1111''\<rparr> \<and>
   parseLines (fixed_offset 3600000) (setHours0 (fixed_offset 3600000) (Date_of_string (YMD 20717)))
     1762041600000 \<lparr>commitMap = [], currentCommit = None\<rparr>
     (sample_entry_a @ ''bbbb2222 2 2 1'' # sample_after_b) =
     Inr \<lparr>commitMap = [(''aaaa1111'', sample_a), (''bbbb2222'', sample_b), (''cccc3333'', sample_c),
                        (''dddd4444'', sample_d)],
          currentCommit = Some ''dddd4444''\<rparr> \<and>
   processLine (fixed_offset 3600000) (setHours0 (fixed_offset 3600000) (Date_of_string (YMD 20717)))
     1762041600000 \<lparr>commitMap = [(''aaaa1111'', sample_a)], currentCommit = Some ''aaaa1111''\<rparr>
     ''bbbb2222 2 2 1'' =
     Inr \<lparr>commitMap = [(''aaaa1111'', sample_a), (''bbbb2222'', newCommit ''bbbb2222'')],
          currentCommit = Some ''bbbb2222''\<rparr> \<and>
   metadata_once [] False (sample_entries_abc @ ''aaaa1111 4 4 1'' # sample_after_repeat) \<and>
   hashOf ''aaaa1111 4 4 1'' = Some ''aaaa1111'' \<and>
   parseLines (fixed_offset 3600000) (setHours0 (fixed_offset 3600000) (Date_of_string (YMD 20717)))
     1762041600000 \<lparr>commitMap = [], currentCommit = None\<rparr> sample_entries_abc =
     Inr \<lparr>commitMap = [(''aaaa1111'', sample_a), (''bbbb2222'', sample_b), (''cccc3333'', sample_c)],
          currentCommit = Some ''cccc3333''\<rparr> \<and>
   parseLines (fixed_offset 3600000) (setHours0 (fixed_offset 3600000) (Date_of_string (YMD 20717)))
     1762041600000 \<lparr>commitMap = [], currentCommit = None\<rparr>
     (sample_entries_abc @ ''aaaa1111 4 4 1'' # sample_after_repeat) =
     Inr \<lparr>commitMap = [(''aaaa1111'', sample_a), (''bbbb2222'', sample_b), (''cccc3333'', sample_c),
                        (''dddd4444'', sample_d)],
          currentCommit = Some ''dddd4444''\<rparr> \<and>
   processLine (fixed_offset 3600000) (setHours0 (fixed_offset 3600000) (Date_of_string (YMD 20717)))
     1762041600000
     \<lparr>commitMap = [(''aaaa1111'', sample_a), (''bbbb2222'', sample_b), (''cccc3333'', sample_c)],
      currentCommit = Some ''cccc3333''\<rparr> ''aaaa1111 4 4 1'' =
     Inr \<lparr>commitMap = [(''aaaa1111'', sample_a), (''bbbb2222'', sample_b), (''cccc3333'', sample_c)],
          currentCommit = Some ''cccc3333''\<rparr> \<and>
   map_of [(''aaaa1111'', sample_a), (''bbbb2222'', sample_b), (''cccc3333'', sample_c),
           (''dddd4444'', sample_d)] ''aaaa1111'' = Some sample_a \<and>
   map_of [(''aaaa1111'', sample_a), (''bbbb2222'', sample_b), (''cccc3333'', sample_c),
           (''dddd4444'', sample_d)] ''bbbb2222'' = Some sample_b \<and>
   map_of [(''aaaa1111'', sample_a), (''bbbb2222'', sample_b), (''cccc3333'', sample_c),
           (''dddd4444'', sample_d)] ''cccc3333'' = Some sample_c \<and>
   distinct (map fst [(''aaaa1111'', sample_a), (''bbbb2222'', sample_b), (''cccc3333'', sample_c),
                      (''dddd4444'', sample_d)]) \<and>
   analyzeBlameResults sample_exec (fixed_offset 3600000) 1762041600000 ''Orders.cs'' (Some 1) (Some 5)
     (YMD 20717) ''C:/repo'' = Inr [sample_b, sample_a, sample_c] \<and>
   distinct (map commitHash [sample_b, sample_a, sample_c])"
proof -
  have shape1: "metadata_once [] False (sample_entry_a @ ''bbbb2222 2 2 1'' # sample_after_b)"
    using sample_shape unfolding sample_cut(1) .
  have shape2: "metadata_once [] False (sample_entries_abc @ ''aaaa1111 4 4 1'' # sample_after_repeat)"
    using sample_shape unfolding sample_cut(2) .
  have hl1: "hashOf ''bbbb2222 2 2 1'' = Some ''bbbb2222''"
    and hl2: "hashOf ''aaaa1111 4 4 1'' = Some ''aaaa1111''"
    by (simp_all add: hashOf_def trim_def commitMatch_def isHex_def isWhiteSpace_def)
  have all1: "parseLines (fixed_offset 3600000)
      (setHours0 (fixed_offset 3600000) (Date_of_string (YMD 20717))) 1762041600000
      \<lparr>commitMap = [], currentCommit = None\<rparr> (sample_entry_a @ ''bbbb2222 2 2 1'' # sample_after_b) =
      Inr \<lparr>commitMap = [(''aaaa1111'', sample_a), (''bbbb2222'', sample_b), (''cccc3333'', sample_c),
                         (''dddd4444'', sample_d)],
           currentCommit = Some ''dddd4444''\<rparr>"
    using sample_parse unfolding sample_cut(1) .
  have all2: "parseLines (fixed_offset 3600000)
      (setHours0 (fixed_offset 3600000) (Date_of_string (YMD 20717))) 1762041600000
      \<lparr>commitMap = [], currentCommit = None\<rparr>
      (sample_entries_abc @ ''aaaa1111 4 4 1'' # sample_after_repeat) =
      Inr \<lparr>commitMap = [(''aaaa1111'', sample_a), (''bbbb2222'', sample_b), (''cccc3333'', sample_c),
                         (''dddd4444'', sample_d)],
           currentCommit = Some ''dddd4444''\<rparr>"
    using sample_parse unfolding sample_cut(2) .
  note inst1 = blame_first_seen_wins [OF shape1 hl1 sample_entry_a_parse all1,
      where exec = sample_exec and filePath = "''Orders.cs''" and ls = "Some 1" and le = "Some 5"
      and startDate = "YMD 20717" and projectRoot = "''C:/repo''"
      and rs = "[sample_b, sample_a, sample_c]"]
  note inst2 = blame_first_seen_wins [OF shape2 hl2 sample_entries_abc_parse all2,
      where exec = sample_exec and filePath = "''Orders.cs''" and ls = "Some 1" and le = "Some 5"
      and startDate = "YMD 20717" and projectRoot = "''C:/repo''"
      and rs = "[sample_b, sample_a, sample_c]"]
  have nb: "\<not> has [(''aaaa1111'', sample_a)] ''bbbb2222''"
    and ha: "has [(''aaaa1111'', sample_a), (''bbbb2222'', sample_b), (''cccc3333'', sample_c)]
               ''aaaa1111''"
    by (simp_all add: has_def)
  from inst1 nb have 1: "processLine (fixed_offset 3600000)
      (setHours0 (fixed_offset 3600000) (Date_of_string (YMD 20717))) 1762041600000
      \<lparr>commitMap = [(''aaaa1111'', sample_a)], currentCommit = Some ''aaaa1111''\<rparr> ''bbbb2222 2 2 1'' =
      Inr \<lparr>commitMap = [(''aaaa1111'', sample_a), (''bbbb2222'', newCommit ''bbbb2222'')],
           currentCommit = Some ''bbbb2222''\<rparr>"
    by simp
  from inst2 ha have 2: "processLine (fixed_offset 3600000)
      (setHours0 (fixed_offset 3600000) (Date_of_string (YMD 20717))) 1762041600000
      \<lparr>commitMap = [(''aaaa1111'', sample_a), (''bbbb2222'', sample_b), (''cccc3333'', sample_c)],
       currentCommit = Some ''cccc3333''\<rparr> ''aaaa1111 4 4 1'' =
      Inr \<lparr>commitMap = [(''aaaa1111'', sample_a), (''bbbb2222'', sample_b), (''cccc3333'', sample_c)],
           currentCommit = Some ''cccc3333''\<rparr>"
    by simp
  from inst2 have kept: "\<forall>k r.
      (k, r) \<in> set [(''aaaa1111'', sample_a), (''bbbb2222'', sample_b), (''cccc3333'', sample_c)] \<longrightarrow>
      map_of [(''aaaa1111'', sample_a), (''bbbb2222'', sample_b), (''cccc3333'', sample_c),
              (''dddd4444'', sample_d)] k = Some r"
    by simp
  have 3: "map_of [(''aaaa1111'', sample_a), (''bbbb2222'', sample_b), (''cccc3333'', sample_c),
                   (''dddd4444'', sample_d)] ''aaaa1111'' = Some sample_a"
    using kept by (rule allE [where x = "''aaaa1111''"]) simp
  have 4: "map_of [(''aaaa1111'', sample_a), (''bbbb2222'', sample_b), (''cccc3333'', sample_c),
                   (''dddd4444'', sample_d)] ''bbbb2222'' = Some sample_b"
    using kept by (rule allE [where x = "''bbbb2222''"]) simp
  have 5: "map_of [(''aaaa1111'', sample_a), (''bbbb2222'', sample_b), (''cccc3333'', sample_c),
                   (''dddd4444'', sample_d)] ''cccc3333'' = Some sample_c"
    using kept by (rule allE [where x = "''cccc3333''"]) simp
  from inst2 have 6: "distinct (map fst [(''aaaa1111'', sample_a), (''bbbb2222'', sample_b),
      (''cccc3333'', sample_c), (''dddd4444'', sample_d)])"
    by simp
  from inst2 sample_result have 7: "distinct (map commitHash [sample_b, sample_a, sample_c])"
    by blast
  from shape1 hl1 sample_entry_a_parse all1 1 shape2 hl2 sample_entries_abc_parse all2 2 3 4 5 6 7
    sample_result
  show ?thesis by blast
qed

subsection \<open>The date-range flag\<close>

lemma map_entry_member_distinct:
  assumes "distinct (map fst al)" and "(k', r) \<in> set (AList.map_entry k f al)"
  shows "(k' \<noteq> k \<and> (k', r) \<in> set al) \<or> (k' = k \<and> (\<exists>r0. (k, r0) \<in> set al \<and> r = f r0))"
  using assms
proof (induction al)
  case Nil
  then show ?case by simp
next
  case (Cons p al)
  show ?case
  proof (cases "fst p = k")
    case True
    with Cons.prems have "(k', r) = (k, f (snd p)) \<or> (k', r) \<in> set al" by auto
    then show ?thesis
    proof
      assume "(k', r) = (k, f (snd p))"
      with True show ?thesis by (cases p) auto
    next
      assume in_al: "(k', r) \<in> set al"
      with Cons.prems(1) True have "k' \<noteq> k" by (cases p) (auto simp: image_iff)
      with in_al show ?thesis by simp
    qed
  next
    case False
    with Cons.prems have "(k', r) = p \<or> (k', r) \<in> set (AList.map_entry k f al)" by auto
    then show ?thesis
    proof
      assume "(k', r) = p"
      with False show ?thesis by auto
    next
      assume "(k', r) \<in> set (AList.map_entry k f al)"
      with Cons.IH Cons.prems(1) show ?thesis by auto
    qed
  qed
qed

lemma flags_ok_newCommit: "flags_ok tz sd (newCommit h)"
  by (simp add: flags_ok_def newCommit_def Date_of_string_def setHours0_def date_ge_def)

lemma flags_ok_finalize: "flags_ok tz sd (finalize tz sd oya m r)"
  by (cases "extractPRNumber m") (simp add: flags_ok_def finalize_def Let_def split: option.splits)

lemma settled_see_commit:
  assumes "settled tz sd False st"
  shows "settled tz sd False (see_commit line st)"
proof -
  have "keyed (see_commit line st)" using assms by (simp add: settled_def keyed_see_commit)
  moreover have "flags_ok tz sd r" if "(h, r) \<in> set (commitMap (see_commit line st))" for h r
    using that assms flags_ok_newCommit
    by (auto simp: see_commit_def settled_def has_def set_update_fresh split: option.splits if_splits)
  ultimately show ?thesis by (auto simp: settled_def)
qed

text \<open>A write to the current record that keeps the flag right, or leaves it open.\<close>

lemma settled_update_current:
  assumes "settled tz sd p st"
    and "\<And>r. commitHash (f r) = commitHash r"
    and "p' \<or> (\<forall>r. (flags_ok tz sd r \<or> p) \<longrightarrow> flags_ok tz sd (f r))"
    and "p \<longrightarrow> p' \<or> (\<forall>r. flags_ok tz sd (f r))"
  shows "settled tz sd p' (update_current f st)"
proof (cases "currentCommit st")
  case None
  with assms(1) show ?thesis by (auto simp: update_current_def settled_def)
next
  case (Some k)
  have k: "keyed (update_current f st)"
    using assms(1,2) by (simp add: settled_def keyed_update_current)
  have cur: "currentCommit (update_current f st) = Some k"
    using Some by (simp add: update_current_def)
  have "flags_ok tz sd r \<or> (p' \<and> h = k)"
    if "(h, r) \<in> set (AList.map_entry k f (commitMap st))" for h r
  proof -
    from assms(1) have d: "distinct (map fst (commitMap st))" by (simp add: settled_def keyed_def)
    from map_entry_member_distinct [OF d that]
    consider "h \<noteq> k" "(h, r) \<in> set (commitMap st)"
      | r0 where "h = k" "(k, r0) \<in> set (commitMap st)" "r = f r0" by blast
    then show ?thesis
    proof cases
      case 1
      with assms(1) Some show ?thesis by (auto simp: settled_def)
    next
      case 2
      from 2(2) assms(1) Some have "flags_ok tz sd r0 \<or> p" by (auto simp: settled_def)
      with assms(3,4) 2 show ?thesis by blast
    qed
  qed
  with k cur Some show ?thesis by (auto simp: settled_def update_current_def)
qed

lemma author_time_not_author: "startsWith line ''author-time '' \<Longrightarrow> \<not> startsWith line ''author ''"
proof
  assume "startsWith line ''author-time ''" and a: "startsWith line ''author ''"
  then obtain r where "line = ''author-time '' @ r" unfolding startsWith_def by (metis append_take_drop_id)
  with a show False by (simp add: startsWith_def)
qed

lemma summary_not_author:
  "startsWith line ''summary '' \<Longrightarrow> \<not> startsWith line ''author '' \<and> \<not> startsWith line ''author-time ''"
proof (intro conjI notI)
  assume s: "startsWith line ''summary ''"
  then obtain r where r: "line = ''summary '' @ r" unfolding startsWith_def by (metis append_take_drop_id)
  { assume "startsWith line ''author ''" with r show False by (simp add: startsWith_def) }
  { assume "startsWith line ''author-time ''" with r show False by (simp add: startsWith_def) }
qed

lemma see_commit_no_match: "commitMatch line = None \<Longrightarrow> see_commit line st = st"
  by (simp add: see_commit_def)

lemma settled_weaken: "settled tz sd False st \<Longrightarrow> settled tz sd p st"
  by (auto simp: settled_def)

lemma settled_processLine:
  assumes "settled tz sd p st"
    and "processLine tz sd oya st line = Inr st'"
    and "dates_finalized p (line # lines)"
  shows "\<exists>p'. settled tz sd p' st' \<and> dates_finalized p' lines"
proof (cases "trim line = []")
  case True
  with assms show ?thesis by (auto simp: processLine_def)
next
  case nonblank: False
  show ?thesis
  proof (cases "commitMatch line")
    case (Some h)
    with assms(3) nonblank have np: "\<not> p" and fin: "dates_finalized False lines" by auto
    from Some assms(2) have "st' = see_commit line st" by (simp add: processLine_hash_line)
    with assms(1) np have "settled tz sd False st'" by (simp add: settled_see_commit)
    with fin show ?thesis by blast
  next
    case None
    then have st1: "see_commit line st = st" by (rule see_commit_no_match)
    consider (time) "startsWith line ''author-time ''"
      | (summary) "startsWith line ''summary ''"
      | (author) "startsWith line ''author ''"
      | (other) "\<not> startsWith line ''author-time ''" "\<not> startsWith line ''summary ''"
                "\<not> startsWith line ''author ''"
      by blast
    then show ?thesis
    proof cases
      case time
      with assms(3) nonblank None have fin: "dates_finalized True lines" by simp
      from time have na: "\<not> startsWith line ''author ''" by (rule author_time_not_author)
      show ?thesis
      proof (cases "currentCommit st")
        case None
        with assms(2) nonblank st1 na time have "st' = st"
          by (auto simp: processLine_def Let_def dest: summary_not_author)
        with assms(1) have "settled tz sd True st'" by (auto simp: settled_def)
        with fin show ?thesis by blast
      next
        case (Some k)
        with assms(2) nonblank st1 na time obtain d where
          "st' = update_current (\<lambda>c. c\<lparr>commitDate := d\<rparr>) st"
          by (auto simp: processLine_def Let_def split: sum.splits)
        moreover have "settled tz sd True (update_current (\<lambda>c. c\<lparr>commitDate := d\<rparr>) st)"
          using assms(1) by (rule settled_update_current) simp_all
        ultimately show ?thesis using fin by blast
      qed
    next
      case summary
      with assms(3) nonblank None summary_not_author [OF summary]
      have fin: "dates_finalized False lines" by simp
      show ?thesis
      proof (cases "currentCommit st")
        case None
        with assms(2) nonblank st1 summary summary_not_author [OF summary] have "st' = st"
          by (auto simp: processLine_def Let_def)
        with assms(1) None have "settled tz sd False st'" by (auto simp: settled_def)
        with fin show ?thesis by blast
      next
        case (Some k)
        with assms(2) nonblank st1 summary summary_not_author [OF summary]
        have "st' = update_current (finalize tz sd oya (replace line ''summary '' '''')) st"
          by (auto simp: processLine_def Let_def)
        moreover have "settled tz sd False
            (update_current (finalize tz sd oya (replace line ''summary '' '''')) st)"
          using assms(1)
          by (rule settled_update_current) (simp_all add: commitHash_finalize flags_ok_finalize)
        ultimately show ?thesis using fin by blast
      qed
    next
      case author
      have nt: "\<not> startsWith line ''author-time ''"
        using author author_time_not_author by blast
      have ns: "\<not> startsWith line ''summary ''"
        using author summary_not_author by blast
      from assms(3) nonblank None nt ns have fin: "dates_finalized p lines" by simp
      show ?thesis
      proof (cases "currentCommit st")
        case None
        with assms(2) nonblank st1 author nt ns have "st' = st"
          by (auto simp: processLine_def Let_def)
        with assms(1) fin show ?thesis by blast
      next
        case (Some k)
        with assms(2) nonblank st1 author
        have "st' = update_current (\<lambda>c. c\<lparr>author := replace line ''author '' ''''\<rparr>) st"
          by (auto simp: processLine_def Let_def)
        moreover have "settled tz sd p
            (update_current (\<lambda>c. c\<lparr>author := replace line ''author '' ''''\<rparr>) st)"
          using assms(1)
        proof (rule settled_update_current)
          show "p \<or> (\<forall>r. (flags_ok tz sd r \<or> p) \<longrightarrow>
                  flags_ok tz sd (r\<lparr>author := replace line ''author '' ''''\<rparr>))"
            by (auto simp: flags_ok_def)
          show "p \<longrightarrow> p \<or> (\<forall>r. flags_ok tz sd (r\<lparr>author := replace line ''author '' ''''\<rparr>))"
            by simp
        qed simp
        ultimately show ?thesis using fin by blast
      qed
    next
      case other
      with assms(3) nonblank None have fin: "dates_finalized p lines" by simp
      from other assms(2) nonblank st1 have "st' = st"
        by (auto simp: processLine_def Let_def)
      with assms(1) fin show ?thesis by blast
    qed
  qed
qed

lemma settled_parseLines:
  assumes "settled tz sd p st"
    and "parseLines tz sd oya st lines = Inr st'"
    and "dates_finalized p lines"
  shows "settled tz sd False st'"
  using assms
proof (induction lines arbitrary: st p)
  case Nil
  then show ?case by simp
next
  case (Cons line lines)
  from Cons.prems(2) obtain st1 where 1: "processLine tz sd oya st line = Inr st1"
    and 2: "parseLines tz sd oya st1 lines = Inr st'"
    by (auto split: sum.splits)
  from settled_processLine [OF Cons.prems(1) 1 Cons.prems(3)]
  obtain p' where "settled tz sd p' st1" "dates_finalized p' lines" by blast
  then show ?case using 2 Cons.IH by blast
qed

text \<open>
  In a zone that keeps one offset, the start of the local day of a UTC midnight lies
  before that midnight by the same amount for every day, less than a day.
\<close>

lemma setHours0_midnight:
  "\<exists>m. 0 \<le> m \<and> m < 86400000 \<and>
       (\<forall>d. setHours0 (fixed_offset tz) (Some (d * msPerDay)) = TimeClip (d * 86400000 - m))"
proof (intro exI conjI allI)
  show "0 \<le> tz mod 86400000" and "tz mod 86400000 < 86400000" by simp_all
  fix d
  have "(d * 86400000 + tz) div 86400000 = d + tz div 86400000"
    by simp
  then have "((d * 86400000 + tz) div 86400000) * 86400000 - tz =
             d * 86400000 + ((tz div 86400000) * 86400000 - tz)"
    by (simp only: algebra_simps)
  also have "(tz div 86400000) * 86400000 - tz = - (tz mod 86400000)"
    by (simp add: minus_mod_eq_div_mult [symmetric])
  finally have eq: "((d * 86400000 + tz) div 86400000) * 86400000 - tz =
      d * 86400000 - tz mod 86400000"
    by simp
  show "setHours0 (fixed_offset tz) (Some (d * msPerDay)) = TimeClip (d * 86400000 - tz mod 86400000)"
    by (simp only: setHours0_def LocalTime_def UTC_def fixed_offset_def msPerDay_def option.case eq)
qed

lemma day_compare:
  assumes "- 100000000 < s" and "s \<le> 100000000" and "- 100000000 \<le> d" and "d \<le> 100000000"
  shows "date_ge (setHours0 (fixed_offset tz) (Date_of_string (YMD d))) (setHours0 (fixed_offset tz) (Date_of_string (YMD s)))
           = (s \<le> d)"
proof -
  from setHours0_midnight [of tz] obtain m where m: "0 \<le> m" "m < 86400000"
    and mid: "\<And>d. setHours0 (fixed_offset tz) (Some (d * msPerDay)) = TimeClip (d * 86400000 - m)"
    by blast
  have ds: "Date_of_string (YMD d) = Some (d * msPerDay)" "Date_of_string (YMD s) = Some (s * msPerDay)"
    using assms by (simp_all add: Date_of_string_def TimeClip_def msPerDay_def)
  have "\<bar>s * 86400000 - m\<bar> \<le> 8640000000000000" using assms(1,2) m by auto
  then have s: "setHours0 (fixed_offset tz) (Some (s * msPerDay)) = Some (s * 86400000 - m)"
    unfolding mid by (simp add: TimeClip_def)
  show ?thesis
  proof (cases "d = - 100000000 \<and> 0 < m")
    case True
    then have "\<bar>d * 86400000 - m\<bar> > 8640000000000000" by auto
    then have "setHours0 (fixed_offset tz) (Some (d * msPerDay)) = None"
      unfolding mid by (simp add: TimeClip_def)
    then have lhs: "setHours0 (fixed_offset tz) (Date_of_string (YMD d)) = None"
      by (simp only: ds)
    have "\<not> s \<le> d" using True assms(1) by simp
    with lhs show ?thesis by (simp add: date_ge_def)
  next
    case False
    with assms(3,4) m have "\<bar>d * 86400000 - m\<bar> \<le> 8640000000000000" by auto
    then have "setHours0 (fixed_offset tz) (Some (d * msPerDay)) = Some (d * 86400000 - m)"
      unfolding mid by (simp add: TimeClip_def)
    then have lhs: "setHours0 (fixed_offset tz) (Date_of_string (YMD d)) = Some (d * 86400000 - m)"
      by (simp only: ds)
    from s have rhs: "setHours0 (fixed_offset tz) (Date_of_string (YMD s)) = Some (s * 86400000 - m)"
      by (simp only: ds)
    show ?thesis unfolding lhs rhs by (simp add: date_ge_def)
  qed
qed

text \<open>
  In a zone that keeps one offset, the flag of every returned record is the
  comparison of the two calendar dates by whole days, whatever the time of day of the
  commit: for a start date that \<^verbatim>\<open>Date\<close> can read and blame output in which a
  \<^verbatim>\<open>summary\<close> line follows every \<^verbatim>\<open>author-time\<close> line of a commit.
\<close>

lemma inDateRange_fixed_offset:
  assumes "exec (blameCmd filePath ls le) projectRoot = Inr stdout"
    and "dates_finalized False (split stdout (CHR 0x0A))"
    and "- 100000000 < s" and "s \<le> 100000000"
    and "analyzeBlameResults exec (fixed_offset tz) oya filePath ls le (YMD s) projectRoot = Inr rs"
  shows "\<forall>r \<in> set rs. \<exists>d. commitDate r = YMD d \<and> inDateRange r = (s \<le> d)"
proof
  fix r assume "r \<in> set rs"
  with assms(5) obtain out st where
    e: "exec (blameCmd filePath ls le) projectRoot = Inr out"
    and p: "parseLines (fixed_offset tz) (setHours0 (fixed_offset tz) (Date_of_string (YMD s))) oya
           \<lparr>commitMap = [], currentCommit = None\<rparr> (split out (CHR 0x0A)) = Inr st"
    and r: "r \<in> snd ` set (commitMap st)" and w: "withinOneYear r"
    by (rule analyzeBlameResults_records)
  from e assms(1) have out: "out = stdout" by simp
  have "settled (fixed_offset tz) (setHours0 (fixed_offset tz) (Date_of_string (YMD s))) False
      \<lparr>commitMap = [], currentCommit = None\<rparr>"
    by (simp add: settled_def keyed_def)
  then have "settled (fixed_offset tz) (setHours0 (fixed_offset tz) (Date_of_string (YMD s))) False st"
    using p assms(2) unfolding out by (rule settled_parseLines)
  with r have ok: "flags_ok (fixed_offset tz) (setHours0 (fixed_offset tz) (Date_of_string (YMD s))) r"
    by (auto simp: settled_def)
  from p have "all_records date_inv st" by (rule date_inv_parseLines)
  with r w have "dated r" by (auto simp: all_records_def date_inv_def)
  then obtain d where d: "commitDate r = YMD d" "- 100000000 \<le> d" "d \<le> 100000000"
    unfolding dated_def by blast
  from ok have "inDateRange r = (s \<le> d)"
    unfolding flags_ok_def d(1) using day_compare [OF assms(3,4) d(2,3)] by simp
  with d(1) show "\<exists>d. commitDate r = YMD d \<and> inDateRange r = (s \<le> d)" by blast
qed

lemma azores_lines:
  "split azores_blame (CHR 0x0A) =
     [''eeee5555 1 1 1'', ''author Erin'', ''author-time 1792929600'', ''summary Round totals'',
      ''filename Orders.cs'', '''']"
  by (simp add: azores_blame_def)

text \<open>
  In \<^verbatim>\<open>Atlantic/Azores\<close> the clocks go back one hour at 01:00 UTC of 2026-10-25,
  and the local day that starts at 2026-10-25T00:00Z lasts 25 hours: it holds the
  midnight of UTC of day 20751 and that of day 20752 (2026-10-26).
\<close>

lemma azores_midnights:
  "setHours0 Atlantic_Azores (Date_of_string (YMD 20751)) = Some 1792886400000"
  "setHours0 Atlantic_Azores (Date_of_string (YMD 20752)) = Some 1792886400000"
  by (simp_all add: setHours0_def LocalTime_def UTC_def Atlantic_Azores_def tzdata_def
      Date_of_string_def TimeClip_def msPerDay_def)

text \<open>
  C4. The flag \<open>inDateRange\<close> is to say that the calendar date of the commit is the
  start date or a later day. \<open>analyzeBlameResults\<close> compares the starts of the local
  days that hold the midnights of UTC of the two dates, and a zone that changes its
  offset can put two consecutive midnights of UTC into one local day. On a host in
  \<^verbatim>\<open>Atlantic/Azores\<close>, a commit written on 2026-10-25 is returned with
  \<open>inDateRange\<close> true for the start date 2026-10-26, the day after it.
\<close>

theorem inDateRange_daylight_saving:
  "analyzeBlameResults azores_exec Atlantic_Azores 1762041600000 ''Orders.cs'' None None
     (YMD 20752) ''C:/repo'' =
   Inr [\<lparr> commitHash = ''eeee5555'', author = ''Erin'', commitDate = YMD 20751,
          commitMessage = ''Round totals'', prNumber = None, prUrl = None, prSource = None,
          inDateRange = True, withinOneYear = True \<rparr>] \<and>
   \<not> spec_inDateRange (YMD 20752) (YMD 20751)"
proof
  show "analyzeBlameResults azores_exec Atlantic_Azores 1762041600000 ''Orders.cs'' None None
     (YMD 20752) ''C:/repo'' =
   Inr [\<lparr> commitHash = ''eeee5555'', author = ''Erin'', commitDate = YMD 20751,
          commitMessage = ''Round totals'', prNumber = None, prUrl = None, prSource = None,
          inDateRange = True, withinOneYear = True \<rparr>]"
    unfolding analyzeBlameResults_def analyzeBlameResults_try_def azores_exec_def sum.case Let_def
      azores_lines azores_midnights
    by (simp add: blame_eval pr_defs Atlantic_Azores_def tzdata_def sort_by_def)
  show "\<not> spec_inDateRange (YMD 20752) (YMD 20751)"
    by (simp add: spec_inDateRange_def)
qed

section \<open>Properties of the File Resolver\<close>

lemma countMatches_zip:
  "countMatches pathParts namespaceParts =
     length (filter (\<lambda>(p, n). toLowerCase p = n) (zip pathParts namespaceParts))"
  by (induction pathParts namespaceParts rule: countMatches.induct) simp_all

lemma encore_relative: "relativePath_of encore_path score_root = ''app/encore/orders/invoice.cs''"
  by (simp add: relativePath_of_def encore_path_def score_root_def toLowerCase_def lowerChar_def
      normalizeSlashes_def stripLeadingSlash_def startsWith_def)

lemma core_relative: "relativePath_of core_path score_root = ''app/core/billing/invoice.cs''"
  by (simp add: relativePath_of_def core_path_def score_root_def toLowerCase_def lowerChar_def
      normalizeSlashes_def stripLeadingSlash_def startsWith_def)

lemma invoice_parts: "namespaceParts_of ''App.Core.Orders.Invoice'' = [''app'', ''core'', ''orders'']"
  by (simp add: namespaceParts_of_def toLowerCase_def lowerChar_def slice_0_m1_def)

lemma encore_score: "calculateNamespaceScore encore_path ''App.Core.Orders.Invoice'' score_root = 230"
  unfolding calculateNamespaceScore_def encore_relative invoice_parts
  by (simp add: totalMatches_def startsWith_def toLowerCase_def lowerChar_def)

lemma core_score: "calculateNamespaceScore core_path ''App.Core.Orders.Invoice'' score_root = 220"
  unfolding calculateNamespaceScore_def core_relative invoice_parts
  by (simp add: totalMatches_def startsWith_def toLowerCase_def lowerChar_def)

lemma dir_paths:
  "map trim (filter (\<lambda>p. trim p \<noteq> [])
     (split (trim (core_path @ [CHR 0x0D, CHR 0x0A] @ encore_path @ [CHR 0x0D, CHR 0x0A])) (CHR 0x0A))) =
   [core_path, encore_path]"
  by (simp add: trim_def isWhiteSpace_def core_path_def encore_path_def score_root_def)

lemma dir_result:
  "findSourceFile dir_exec ''App.Core.Orders.Invoice'' score_root = Inr (Some encore_path)"
  unfolding findSourceFile_def findSourceFile_try_def dir_exec_def Let_def sum.case dir_paths
  by (simp add: encore_score core_score sort_by_def byScoreDesc_def)

text \<open>
  C2. The namespace affinity score is \<open>100 * c + 10 * t\<close> only while the matching
  path parts are consecutive. The loop of \<open>calculateNamespaceScore\<close> has no exit at
  the first mismatch and counts every position at which path part and namespace part
  agree. For \<^verbatim>\<open>C:\repo\App\Encore\Orders\Invoice.cs\<close> and the namespace
  \<^verbatim>\<open>App.Core.Orders.Invoice\<close> it counts 2 where the consecutive prefix has length
  1, so the score is 230 and not 130, and the resolver prefers this file to
  \<^verbatim>\<open>C:\repo\App\Core\Billing\Invoice.cs\<close>, whose prefix of length 2 scores 220.
\<close>

theorem calculateNamespaceScore_counts_past_mismatch:
  "calculateNamespaceScore encore_path ''App.Core.Orders.Invoice'' score_root = 230 \<and>
   spec_namespaceScore encore_path ''App.Core.Orders.Invoice'' score_root = 130 \<and>
   calculateNamespaceScore core_path ''App.Core.Orders.Invoice'' score_root = 220 \<and>
   spec_namespaceScore core_path ''App.Core.Orders.Invoice'' score_root = 220 \<and>
   findSourceFile dir_exec ''App.Core.Orders.Invoice'' score_root = Inr (Some encore_path)"
proof -
  have "spec_namespaceScore encore_path ''App.Core.Orders.Invoice'' score_root = 130"
    unfolding spec_namespaceScore_def encore_relative invoice_parts
    by (simp add: totalMatches_def startsWith_def toLowerCase_def lowerChar_def)
  moreover have "spec_namespaceScore core_path ''App.Core.Orders.Invoice'' score_root = 220"
    unfolding spec_namespaceScore_def core_relative invoice_parts
    by (simp add: totalMatches_def startsWith_def toLowerCase_def lowerChar_def)
  ultimately show ?thesis using encore_score core_score dir_result by simp
qed


end
